theory Spec2Isabelle
  imports Complex_Main "HOL-Library.Word" "HOL-Library.Multiset"
begin

section \<open>Limits and errors\<close>

text \<open>
  The model follows \<^verbatim>\<open>scripts/dice_roller.py\<close>. Python integers are \<open>int\<close>, counts
  that the parser reads from digit strings are \<open>nat\<close>, strings are \<open>string\<close> with one
  \<open>char\<close> per code point (code points 0 to 255), and every \<^verbatim>\<open>raise\<close> is a value of
  \<open>error\<close> returned on the left of a sum.
\<close>

definition MAX_DICE :: nat where "MAX_DICE = 1000"
definition MAX_SIDES :: int where "MAX_SIDES = 1000000000"
definition MAX_EXPLOSIONS :: nat where "MAX_EXPLOSIONS = 100"
definition MAX_REROLLS :: nat where "MAX_REROLLS = 10000"
definition MAX_RECURSION :: nat where "MAX_RECURSION = 32"

text \<open>
  The exception classes. \<open>ParseError\<close> carries message, position and input text;
  \<open>OtherError\<close> stands for every exception outside the \<open>DiceError\<close> hierarchy
  (\<^verbatim>\<open>ValueError\<close>, \<^verbatim>\<open>TypeError\<close>, \<^verbatim>\<open>OverflowError\<close>), with its class name and message.
\<close>

datatype error =
    ParseError string nat string
  | SemanticError string
  | LimitError string
  | DiceError string
  | OtherError string string

section \<open>The secure die source\<close>

text \<open>
  The operating system's entropy is an unending sequence of bytes, read front to back:
  \<open>entropy\<close> is the sequence and \<open>consumed\<close> the number of bytes already drawn.
\<close>

type_synonym byte = "8 word"

record rng =
  entropy :: "nat \<Rightarrow> byte"
  consumed :: nat

definition token_bytes :: "nat \<Rightarrow> rng \<Rightarrow> byte list \<times> rng" where
  "token_bytes n r =
     (map (entropy r) [consumed r ..< consumed r + n], r\<lparr>consumed := consumed r + n\<rparr>)"

definition from_bytes_big :: "byte list \<Rightarrow> nat" where
  "from_bytes_big bs = foldl (\<lambda>acc b. acc * 256 + unat b) 0 bs"

fun bit_length :: "nat \<Rightarrow> nat" where
  "bit_length n = (if n = 0 then 0 else Suc (bit_length (n div 2)))"

declare bit_length.simps [simp del]

definition bytes_needed :: "int \<Rightarrow> nat" where
  "bytes_needed sides = (bit_length (nat \<bar>sides\<bar>) + 7) div 8"

definition max_value :: "int \<Rightarrow> int" where
  "max_value sides = 2 ^ (bytes_needed sides * 8)"

definition bound :: "int \<Rightarrow> int" where
  "bound sides = (max_value sides div sides) * sides"

text \<open>
  \<^verbatim>\<open>secrets.randbelow\<close> belongs to the standard library; its contract is a result in
  \<open>[0, n)\<close>. The model draws the bytes covering \<open>n\<close> and reduces them into that range.
\<close>

definition randbelow :: "int \<Rightarrow> rng \<Rightarrow> int \<times> rng" where
  "randbelow n r =
     (case token_bytes (bytes_needed n) r of
        (bs, r') \<Rightarrow> (int (from_bytes_big bs) mod n, r'))"

text \<open>The rejection sampling loop of \<^verbatim>\<open>roll_die\<close>, with its fallback after 10000 attempts.\<close>

function sample_loop :: "int \<Rightarrow> nat \<Rightarrow> rng \<Rightarrow> int \<times> rng" where
  "sample_loop sides attempts r =
     (if attempts < 10000 then
        (if int (from_bytes_big (fst (token_bytes (bytes_needed sides) r))) < bound sides
         then (int (from_bytes_big (fst (token_bytes (bytes_needed sides) r))) mod sides + 1,
               snd (token_bytes (bytes_needed sides) r))
         else sample_loop sides (attempts + 1) (snd (token_bytes (bytes_needed sides) r)))
      else (fst (randbelow sides r) + 1, snd (randbelow sides r)))"
  by pat_completeness auto
termination
  by (relation "measure (\<lambda>(sides, attempts, r). 10000 - attempts)") auto

declare sample_loop.simps [simp del]

definition roll_die :: "int \<Rightarrow> rng \<Rightarrow> error + (int \<times> rng)" where
  "roll_die sides r =
     (if sides < 1 then Inl (OtherError ''ValueError'' ''Die must have at least 1 side'')
      else if sides > MAX_SIDES
        then Inl (LimitError ''Die cannot have more than 1000000000 sides'')
      else if sides = 1 then Inr (1, r)
      else Inr (sample_loop sides 0 r))"

section \<open>Strings\<close>

text \<open>
  \<^verbatim>\<open>str.isspace\<close> (which \<^verbatim>\<open>str.strip\<close> and the pattern \<^verbatim>\<open>\s\<close> follow) holds for the
  code points 9 to 13, 28 to 32, 133 and 160; \<^verbatim>\<open>\d\<close> matches the ten decimal digits;
  \<^verbatim>\<open>str.lower\<close> moves the capital letters A to Z and the capitals 192 to 222 (215 apart)
  up by 32.
\<close>

definition is_space :: "char \<Rightarrow> bool" where
  "is_space c =
     (let n = (of_char c :: nat)
      in (9 \<le> n \<and> n \<le> 13) \<or> (28 \<le> n \<and> n \<le> 32) \<or> n = 133 \<or> n = 160)"

definition is_digit :: "char \<Rightarrow> bool" where
  "is_digit c = (c \<in> set ''0123456789'')"

definition lower_char :: "char \<Rightarrow> char" where
  "lower_char c =
     (let n = (of_char c :: nat)
      in if (65 \<le> n \<and> n \<le> 90) \<or> (192 \<le> n \<and> n \<le> 222 \<and> n \<noteq> 215)
         then char_of (n + 32) else c)"

definition lower :: "string \<Rightarrow> string" where
  "lower s = map lower_char s"

definition strip :: "string \<Rightarrow> string" where
  "strip s = rev (dropWhile is_space (rev (dropWhile is_space s)))"

definition isdigit :: "string \<Rightarrow> bool" where
  "isdigit s = (s \<noteq> [] \<and> list_all is_digit s)"

definition startswith :: "string \<Rightarrow> string \<Rightarrow> bool" where
  "startswith s p = (take (length p) s = p)"

definition digit_value :: "char \<Rightarrow> nat" where
  "digit_value c = of_char c - 48"

text \<open>\<^verbatim>\<open>int(s)\<close> on a string of decimal digits; \<open>None\<close> is its \<^verbatim>\<open>ValueError\<close>.\<close>

definition int_of_digits :: "string \<Rightarrow> nat" where
  "int_of_digits s = foldl (\<lambda>acc c. acc * 10 + digit_value c) 0 s"

definition py_int :: "string \<Rightarrow> int option" where
  "py_int s =
     (if isdigit s then Some (int (int_of_digits s))
      else if startswith s ''-'' \<and> isdigit (tl s) then Some (- int (int_of_digits (tl s)))
      else None)"

definition digit_char :: "nat \<Rightarrow> char" where
  "digit_char n = ''0123456789'' ! n"

fun str_nat :: "nat \<Rightarrow> string" where
  "str_nat n =
     (if n < 10 then [digit_char n] else str_nat (n div 10) @ [digit_char (n mod 10)])"

declare str_nat.simps [simp del]

definition str_int :: "int \<Rightarrow> string" where
  "str_int i = (if i < 0 then CHR ''-'' # str_nat (nat (- i)) else str_nat (nat i))"

definition quoted :: "string \<Rightarrow> string" where
  "quoted s = CHR 0x27 # s @ [CHR 0x27]"

section \<open>Abstract syntax\<close>

text \<open>
  A condition is an operator with its threshold. The threshold of a reroll condition or of
  a success comparator is an integer; that of an explosion condition is an integer or the
  marker \<^verbatim>\<open>'max'\<close>, which \<^verbatim>\<open>_apply_explosions\<close> resolves before it checks anything.
\<close>

datatype cond_value = CInt int | CMax

datatype 'v condition = Condition (cop: string) (cvalue: 'v)

record reroll_spec =
  once :: bool
  rcondition :: "int condition"

record explode_spec =
  penetrating :: bool
  compound :: bool
  econdition :: "cond_value condition"

record keep_spec =
  ktype :: string
  kcount :: nat

record modifiers =
  reroll :: "reroll_spec option"
  explode :: "explode_spec option"
  keep :: "keep_spec option"
  sort_mod :: "string option"
  comparator :: "int condition option"

datatype ast =
    Number int
  | BinaryOp string ast ast
  | UnaryOp string ast
  | Dice nat int string modifiers

section \<open>Dice terms\<close>

record die_roll =
  die_value :: int
  rerolls :: "int list"
  explodes :: "int list"
  success :: "bool option"

definition DieRoll :: "int \<Rightarrow> die_roll" where
  "DieRoll v = \<lparr>die_value = v, rerolls = [], explodes = [], success = None\<rparr>"

record dice_trace =
  term_str :: string
  rolls :: "die_roll list"
  keptValues :: "int list option"
  sum_opt :: "int option"
  threshold :: "string option"
  successes :: "nat option"

definition check_condition :: "int \<Rightarrow> int condition \<Rightarrow> bool" where
  "check_condition v c =
     (if cop c = ''='' then v = cvalue c
      else if cop c = ''>'' then v > cvalue c
      else if cop c = ''>='' then v \<ge> cvalue c
      else if cop c = ''<'' then v < cvalue c
      else if cop c = ''<='' then v \<le> cvalue c
      else False)"

text \<open>One fresh value for a die: a FATE die is a three-sided roll moved to \<open>{-1, 0, 1}\<close>.\<close>

definition roll_value :: "string \<Rightarrow> int \<Rightarrow> rng \<Rightarrow> error + (int \<times> rng)" where
  "roll_value die_type sides r =
     (if die_type = ''dF''
      then (case roll_die 3 r of Inl e \<Rightarrow> Inl e | Inr (v, r') \<Rightarrow> Inr (v - 2, r'))
      else roll_die sides r)"

fun roll_all :: "nat \<Rightarrow> string \<Rightarrow> int \<Rightarrow> rng \<Rightarrow> error + (die_roll list \<times> rng)" where
  "roll_all 0 die_type sides r = Inr ([], r)"
| "roll_all (Suc n) die_type sides r =
     (case roll_value die_type sides r of
        Inl e \<Rightarrow> Inl e
      | Inr (v, r') \<Rightarrow>
          (case roll_all n die_type sides r' of
             Inl e \<Rightarrow> Inl e
           | Inr (rs, r'') \<Rightarrow> Inr (DieRoll v # rs, r'')))"

text \<open>
  The \<^verbatim>\<open>while\<close> loop of \<^verbatim>\<open>_apply_rerolls\<close> for one die; it returns the die, its reroll
  count and the entropy left.
\<close>

function reroll_loop ::
  "int condition \<Rightarrow> bool \<Rightarrow> string \<Rightarrow> int \<Rightarrow> nat \<Rightarrow> die_roll \<Rightarrow> rng
     \<Rightarrow> error + (die_roll \<times> nat \<times> rng)" where
  "reroll_loop cond onc die_type sides reroll_count roll r =
     (if check_condition (die_value roll) cond \<and> reroll_count < MAX_REROLLS then
        (case roll_value die_type sides r of
           Inl e \<Rightarrow> Inl e
         | Inr (v, r') \<Rightarrow>
             if onc
             then Inr (roll\<lparr>die_value := v, rerolls := rerolls roll @ [die_value roll]\<rparr>,
                       reroll_count + 1, r')
             else reroll_loop cond onc die_type sides (reroll_count + 1)
                    (roll\<lparr>die_value := v, rerolls := rerolls roll @ [die_value roll]\<rparr>) r')
      else Inr (roll, reroll_count, r))"
  by pat_completeness auto
termination
  by (relation "measure (\<lambda>(cond, onc, die_type, sides, reroll_count, roll, r).
                           MAX_REROLLS - reroll_count)") auto

declare reroll_loop.simps [simp del]

definition reroll_one ::
  "int condition \<Rightarrow> bool \<Rightarrow> string \<Rightarrow> int \<Rightarrow> die_roll \<Rightarrow> rng \<Rightarrow> error + (die_roll \<times> rng)" where
  "reroll_one cond onc die_type sides roll r =
     (case reroll_loop cond onc die_type sides 0 roll r of
        Inl e \<Rightarrow> Inl e
      | Inr (roll', reroll_count, r') \<Rightarrow>
          if reroll_count \<ge> MAX_REROLLS
          then Inl (LimitError ''Exceeded maximum rerolls of 10000'')
          else Inr (roll', r'))"

fun apply_rerolls ::
  "die_roll list \<Rightarrow> int \<Rightarrow> string \<Rightarrow> reroll_spec \<Rightarrow> rng \<Rightarrow> error + (die_roll list \<times> rng)" where
  "apply_rerolls [] sides die_type spec r = Inr ([], r)"
| "apply_rerolls (roll # rest) sides die_type spec r =
     (case reroll_one (rcondition spec) (once spec) die_type sides roll r of
        Inl e \<Rightarrow> Inl e
      | Inr (roll', r') \<Rightarrow>
          (case apply_rerolls rest sides die_type spec r' of
             Inl e \<Rightarrow> Inl e
           | Inr (rest', r'') \<Rightarrow> Inr (roll' # rest', r'')))"

text \<open>The \<^verbatim>\<open>while\<close> loop of \<^verbatim>\<open>_apply_explosions\<close> for one die.\<close>

function explode_loop ::
  "int condition \<Rightarrow> bool \<Rightarrow> string \<Rightarrow> int \<Rightarrow> nat \<Rightarrow> int \<Rightarrow> die_roll \<Rightarrow> rng
     \<Rightarrow> error + (die_roll \<times> nat \<times> rng)" where
  "explode_loop cond pen die_type sides explosion_count current_value roll r =
     (if check_condition current_value cond \<and> explosion_count < MAX_EXPLOSIONS then
        (case roll_value die_type sides r of
           Inl e \<Rightarrow> Inl e
         | Inr (v, r') \<Rightarrow>
             explode_loop cond pen die_type sides (explosion_count + 1)
               (if pen \<and> v > 0 then v - 1 else v)
               (roll\<lparr>explodes := explodes roll @ [if pen \<and> v > 0 then v - 1 else v]\<rparr>) r')
      else Inr (roll, explosion_count, r))"
  by pat_completeness auto
termination
  by (relation "measure (\<lambda>(cond, pen, die_type, sides, explosion_count, current_value, roll, r).
                           MAX_EXPLOSIONS - explosion_count)") auto

declare explode_loop.simps [simp del]

definition explode_one ::
  "int condition \<Rightarrow> bool \<Rightarrow> string \<Rightarrow> int \<Rightarrow> die_roll \<Rightarrow> rng \<Rightarrow> error + (die_roll \<times> rng)" where
  "explode_one cond pen die_type sides roll r =
     (case explode_loop cond pen die_type sides 0 (die_value roll) roll r of
        Inl e \<Rightarrow> Inl e
      | Inr (roll', explosion_count, r') \<Rightarrow>
          if explosion_count \<ge> MAX_EXPLOSIONS
          then Inl (LimitError ''Exceeded maximum explosions of 100'')
          else Inr (roll', r'))"

fun explode_all ::
  "int condition \<Rightarrow> bool \<Rightarrow> string \<Rightarrow> int \<Rightarrow> die_roll list \<Rightarrow> rng
     \<Rightarrow> error + (die_roll list \<times> rng)" where
  "explode_all cond pen die_type sides [] r = Inr ([], r)"
| "explode_all cond pen die_type sides (roll # rest) r =
     (case explode_one cond pen die_type sides roll r of
        Inl e \<Rightarrow> Inl e
      | Inr (roll', r') \<Rightarrow>
          (case explode_all cond pen die_type sides rest r' of
             Inl e \<Rightarrow> Inl e
           | Inr (rest', r'') \<Rightarrow> Inr (roll' # rest', r'')))"

text \<open>
  \<^verbatim>\<open>_apply_explosions\<close> first writes the resolved threshold into the condition, then runs
  the loop over the dice. The specification it returns is the one it has written to.
\<close>

definition resolve_max :: "cond_value condition \<Rightarrow> string \<Rightarrow> int \<Rightarrow> int condition" where
  "resolve_max c die_type sides =
     (case cvalue c of
        CMax \<Rightarrow> Condition (cop c) (if die_type = ''dF'' then 1 else sides)
      | CInt n \<Rightarrow> Condition (cop c) n)"

definition apply_explosions ::
  "die_roll list \<Rightarrow> int \<Rightarrow> string \<Rightarrow> explode_spec \<Rightarrow> rng
     \<Rightarrow> error + (die_roll list \<times> explode_spec \<times> rng)" where
  "apply_explosions rs sides die_type spec r =
     (let cond = resolve_max (econdition spec) die_type sides
      in case explode_all cond (penetrating spec) die_type sides rs r of
           Inl e \<Rightarrow> Inl e
         | Inr (rs', r') \<Rightarrow>
             Inr (rs', spec\<lparr>econdition := Condition (cop cond) (CInt (cvalue cond))\<rparr>, r'))"

text \<open>Python's slices \<^verbatim>\<open>xs[i:]\<close> and \<^verbatim>\<open>xs[:j]\<close>: a negative index counts from the end.\<close>

definition slice_from :: "int \<Rightarrow> 'a list \<Rightarrow> 'a list" where
  "slice_from i xs = (if i < 0 then drop (nat (int (length xs) + i)) xs else drop (nat i) xs)"

definition slice_to :: "int \<Rightarrow> 'a list \<Rightarrow> 'a list" where
  "slice_to j xs = (if j < 0 then take (nat (int (length xs) + j)) xs else take (nat j) xs)"

definition die_total :: "die_roll \<Rightarrow> int" where
  "die_total roll = die_value roll + sum_list (explodes roll)"

definition apply_keep_drop :: "die_roll list \<Rightarrow> keep_spec \<Rightarrow> error + int list option" where
  "apply_keep_drop rs spec =
     (let all_values = map die_total rs in
      if kcount spec > length all_values then
        Inl (SemanticError (''Cannot keep/drop '' @ str_nat (kcount spec) @ '' from ''
                            @ str_nat (length all_values) @ '' dice''))
      else
        (let sorted_values = rev (sort all_values) in
         if ktype spec = ''kh'' then Inr (Some (slice_to (int (kcount spec)) sorted_values))
         else if ktype spec = ''kl''
           then Inr (Some (slice_from (- int (kcount spec)) sorted_values))
         else if ktype spec = ''dh''
           then Inr (Some (slice_from (int (kcount spec)) sorted_values))
         else if ktype spec = ''dl''
           then Inr (Some (slice_to (- int (kcount spec)) sorted_values))
         else Inr None))"

definition count_successes ::
  "die_roll list \<Rightarrow> int condition \<Rightarrow> int list option \<Rightarrow> die_roll list \<times> nat" where
  "count_successes rs cmp kept_values =
     (let values = (case kept_values of Some kv \<Rightarrow> kv | None \<Rightarrow> map die_value rs)
      in (map (\<lambda>(i, roll).
                 if kept_values = None \<or> i < length values
                 then roll\<lparr>success := Some (check_condition (die_value roll) cmp)\<rparr>
                 else roll)
              (enumerate 0 rs),
          length (filter (\<lambda>v. check_condition v cmp) values)))"

definition str_value :: "cond_value \<Rightarrow> string" where
  "str_value v = (case v of CInt n \<Rightarrow> str_int n | CMax \<Rightarrow> ''max'')"

definition format_condition :: "cond_value condition \<Rightarrow> string" where
  "format_condition c =
     (if cop c = ''='' \<and> cvalue c \<noteq> CMax then str_value (cvalue c)
      else cop c @ str_value (cvalue c))"

text \<open>
  \<^verbatim>\<open>die_type.split('d')[1]\<close>: the text between the first \<^verbatim>\<open>d\<close> and the next one. The
  die types are \<^verbatim>\<open>d\<close>, \<^verbatim>\<open>d%\<close> and \<^verbatim>\<open>dF\<close>, and the source splits the last two only.
\<close>

definition split_d_1 :: "string \<Rightarrow> string" where
  "split_d_1 s =
     takeWhile (\<lambda>c. c \<noteq> CHR ''d'') (tl (dropWhile (\<lambda>c. c \<noteq> CHR ''d'') s))"

text \<open>
  The trace's term string, built from the modifiers in the order of the dictionary's keys.
  The explosion condition is read after \<^verbatim>\<open>_apply_explosions\<close> has resolved it.
\<close>

definition term_string :: "nat \<Rightarrow> int \<Rightarrow> string \<Rightarrow> modifiers \<Rightarrow> string" where
  "term_string cnt sides die_type mods =
     str_nat cnt @ ''d'' @ (if die_type = ''d'' then str_int sides else split_d_1 die_type)
     @ (case reroll mods of
          None \<Rightarrow> []
        | Some v \<Rightarrow>
            ''r'' @ (if once v then ''o'' else [])
            @ format_condition (Condition (cop (rcondition v)) (CInt (cvalue (rcondition v)))))
     @ (case explode mods of
          None \<Rightarrow> []
        | Some v \<Rightarrow>
            ''!'' @ (if compound v then ''!'' else []) @ (if penetrating v then ''p'' else [])
            @ (if cvalue (econdition v) \<noteq> CMax then format_condition (econdition v) else []))
     @ (case keep mods of
          None \<Rightarrow> []
        | Some v \<Rightarrow> ktype v @ str_nat (kcount v))"

definition sort_rolls :: "string \<Rightarrow> die_roll list \<Rightarrow> die_roll list" where
  "sort_rolls how rs =
     (if how = ''sa'' then sort_key die_value rs else rev (sort_key die_value (rev rs)))"

text \<open>
  \<^verbatim>\<open>_eval_dice\<close>: the value of the term, its trace and the entropy left. Its steps
  after the first rolls are named: the rerolls, the explosions (which hand on the
  modifiers with the resolved explosion condition), keep/drop, and the part from the sort
  to the trace.
\<close>

definition reroll_stage ::
  "modifiers \<Rightarrow> die_roll list \<Rightarrow> int \<Rightarrow> string \<Rightarrow> rng \<Rightarrow> error + (die_roll list \<times> rng)" where
  "reroll_stage mods rs sides die_type r =
     (case reroll mods of
        None \<Rightarrow> Inr (rs, r)
      | Some spec \<Rightarrow> apply_rerolls rs sides die_type spec r)"

definition explode_stage ::
  "modifiers \<Rightarrow> die_roll list \<Rightarrow> int \<Rightarrow> string \<Rightarrow> rng
     \<Rightarrow> error + (die_roll list \<times> modifiers \<times> rng)" where
  "explode_stage mods rs sides die_type r =
     (case explode mods of
        None \<Rightarrow> Inr (rs, mods, r)
      | Some spec \<Rightarrow>
          (case apply_explosions rs sides die_type spec r of
             Inl e \<Rightarrow> Inl e
           | Inr (rs', spec', r') \<Rightarrow> Inr (rs', mods\<lparr>explode := Some spec'\<rparr>, r')))"

definition keep_stage :: "modifiers \<Rightarrow> die_roll list \<Rightarrow> error + int list option" where
  "keep_stage mods rs =
     (case keep mods of
        None \<Rightarrow> Inr None
      | Some spec \<Rightarrow> apply_keep_drop rs spec)"

definition dice_result ::
  "nat \<Rightarrow> int \<Rightarrow> string \<Rightarrow> modifiers \<Rightarrow> die_roll list \<Rightarrow> int list option
     \<Rightarrow> int \<times> dice_trace" where
  "dice_result cnt sides die_type mods rolls2 kept_values =
     (let rolls3 = (case sort_mod mods of None \<Rightarrow> rolls2 | Some how \<Rightarrow> sort_rolls how rolls2);
          term0 = term_string cnt sides die_type mods
      in case comparator mods of
           Some cmp \<Rightarrow>
             (let thr = cop cmp @ str_int (cvalue cmp);
                  counted = count_successes rolls3 cmp kept_values
              in (int (snd counted),
                  \<lparr>term_str = term0 @ thr, rolls = fst counted, keptValues = None,
                   sum_opt = None, threshold = Some thr, successes = Some (snd counted)\<rparr>))
         | None \<Rightarrow>
             (case kept_values of
                Some kv \<Rightarrow>
                  (sum_list kv,
                   \<lparr>term_str = term0, rolls = rolls3, keptValues = Some kv,
                    sum_opt = Some (sum_list kv), threshold = None, successes = None\<rparr>)
              | None \<Rightarrow>
                  (let values = map die_value rolls3
                                @ (if die_type = ''dF'' then concat (map explodes rolls3)
                                   else [])
                   in (sum_list values,
                       \<lparr>term_str = term0, rolls = rolls3, keptValues = None,
                        sum_opt = Some (sum_list values), threshold = None,
                        successes = None\<rparr>))))"

definition eval_dice ::
  "nat \<Rightarrow> int \<Rightarrow> string \<Rightarrow> modifiers \<Rightarrow> rng \<Rightarrow> error + (int \<times> dice_trace \<times> rng)" where
  "eval_dice cnt sides die_type mods r0 =
     (case roll_all cnt die_type sides r0 of
        Inl e \<Rightarrow> Inl e
      | Inr (rolls0, r1) \<Rightarrow>
     (case reroll_stage mods rolls0 sides die_type r1 of
        Inl e \<Rightarrow> Inl e
      | Inr (rolls1, r2) \<Rightarrow>
     (case explode_stage mods rolls1 sides die_type r2 of
        Inl e \<Rightarrow> Inl e
      | Inr (rolls2, mods', r3) \<Rightarrow>
     (case keep_stage mods' rolls2 of
        Inl e \<Rightarrow> Inl e
      | Inr kept_values \<Rightarrow>
          (case dice_result cnt sides die_type mods' rolls2 kept_values of
             (v, trace) \<Rightarrow> Inr (v, trace, r3))))))"

section \<open>Arithmetic\<close>

text \<open>
  A value is a Python \<^verbatim>\<open>int\<close> or a \<^verbatim>\<open>float\<close>. The floating-point numbers and their
  arithmetic belong to the platform: the evaluator takes them as a parameter, a type \<open>'f\<close>
  with the operations below, where \<open>None\<close> is an \<^verbatim>\<open>OverflowError\<close> (or the \<^verbatim>\<open>ValueError\<close> of
  \<^verbatim>\<open>int(nan)\<close>).
\<close>

datatype 'f num = IntV int | FloatV 'f

record 'f float_ops =
  f_of_int :: "int \<Rightarrow> 'f option"
  f_add :: "'f \<Rightarrow> 'f \<Rightarrow> 'f"
  f_sub :: "'f \<Rightarrow> 'f \<Rightarrow> 'f"
  f_mul :: "'f \<Rightarrow> 'f \<Rightarrow> 'f"
  f_div :: "'f \<Rightarrow> 'f \<Rightarrow> 'f"
  f_neg :: "'f \<Rightarrow> 'f"
  f_int_div :: "int \<Rightarrow> int \<Rightarrow> 'f option"
  f_is_zero :: "'f \<Rightarrow> bool"
  f_to_int :: "'f \<Rightarrow> int option"
  f_eq_int :: "'f \<Rightarrow> int \<Rightarrow> bool"

definition overflow :: error where
  "overflow = OtherError ''OverflowError'' ''int too large to convert to float''"

definition to_float :: "'f float_ops \<Rightarrow> 'f num \<Rightarrow> error + 'f" where
  "to_float ops a =
     (case a of
        FloatV x \<Rightarrow> Inr x
      | IntV i \<Rightarrow> (case f_of_int ops i of None \<Rightarrow> Inl overflow | Some x \<Rightarrow> Inr x))"

definition arith ::
  "'f float_ops \<Rightarrow> (int \<Rightarrow> int \<Rightarrow> int) \<Rightarrow> ('f \<Rightarrow> 'f \<Rightarrow> 'f) \<Rightarrow> 'f num \<Rightarrow> 'f num \<Rightarrow> error + 'f num" where
  "arith ops iop fop a b =
     (case (a, b) of
        (IntV x, IntV y) \<Rightarrow> Inr (IntV (iop x y))
      | _ \<Rightarrow>
          (case to_float ops a of
             Inl e \<Rightarrow> Inl e
           | Inr x \<Rightarrow>
               (case to_float ops b of Inl e \<Rightarrow> Inl e | Inr y \<Rightarrow> Inr (FloatV (fop x y)))))"

definition is_zero :: "'f float_ops \<Rightarrow> 'f num \<Rightarrow> bool" where
  "is_zero ops a = (case a of IntV i \<Rightarrow> i = 0 | FloatV x \<Rightarrow> f_is_zero ops x)"

definition true_div :: "'f float_ops \<Rightarrow> 'f num \<Rightarrow> 'f num \<Rightarrow> error + 'f num" where
  "true_div ops a b =
     (case (a, b) of
        (IntV x, IntV y) \<Rightarrow>
          (case f_int_div ops x y of
             None \<Rightarrow> Inl (OtherError ''OverflowError'' ''integer division result too large for a float'')
           | Some q \<Rightarrow> Inr (FloatV q))
      | _ \<Rightarrow>
          (case to_float ops a of
             Inl e \<Rightarrow> Inl e
           | Inr x \<Rightarrow>
               (case to_float ops b of
                  Inl e \<Rightarrow> Inl e
                | Inr y \<Rightarrow> Inr (FloatV (f_div ops x y)))))"

definition binary_op :: "'f float_ops \<Rightarrow> string \<Rightarrow> 'f num \<Rightarrow> 'f num \<Rightarrow> error + 'f num" where
  "binary_op ops opr left_val right_val =
     (if opr = ''+'' then arith ops (+) (f_add ops) left_val right_val
      else if opr = ''-'' then arith ops (-) (f_sub ops) left_val right_val
      else if opr = ''*'' then arith ops (*) (f_mul ops) left_val right_val
      else if opr = ''/'' then
        (if is_zero ops right_val then Inl (DiceError ''Division by zero'')
         else true_div ops left_val right_val)
      else Inl (OtherError ''ValueError'' ''Unknown node type: binary_op''))"

definition unary_op :: "'f float_ops \<Rightarrow> string \<Rightarrow> 'f num \<Rightarrow> error + 'f num" where
  "unary_op ops opr operand_val =
     (if opr = ''-''
      then Inr (case operand_val of IntV i \<Rightarrow> IntV (- i) | FloatV x \<Rightarrow> FloatV (f_neg ops x))
      else Inl (OtherError ''ValueError'' ''Unknown node type: unary_op''))"

section \<open>Evaluator\<close>

text \<open>
  \<^verbatim>\<open>_eval_node\<close>, with the evaluator's list of traces and the entropy passed along: the
  left operand is evaluated before the right one, and a dice term appends its trace.
\<close>

fun eval_node ::
  "'f float_ops \<Rightarrow> ast \<Rightarrow> dice_trace list \<Rightarrow> rng \<Rightarrow> error + ('f num \<times> dice_trace list \<times> rng)" where
  "eval_node ops (Number n) traces r = Inr (IntV n, traces, r)"
| "eval_node ops (BinaryOp opr left right) traces r =
     (case eval_node ops left traces r of
        Inl e \<Rightarrow> Inl e
      | Inr (left_val, traces1, r1) \<Rightarrow>
          (case eval_node ops right traces1 r1 of
             Inl e \<Rightarrow> Inl e
           | Inr (right_val, traces2, r2) \<Rightarrow>
               (case binary_op ops opr left_val right_val of
                  Inl e \<Rightarrow> Inl e
                | Inr v \<Rightarrow> Inr (v, traces2, r2))))"
| "eval_node ops (UnaryOp opr operand) traces r =
     (case eval_node ops operand traces r of
        Inl e \<Rightarrow> Inl e
      | Inr (operand_val, traces1, r1) \<Rightarrow>
          (case unary_op ops opr operand_val of
             Inl e \<Rightarrow> Inl e
           | Inr v \<Rightarrow> Inr (v, traces1, r1)))"
| "eval_node ops (Dice cnt sides die_type mods) traces r =
     (case eval_dice cnt sides die_type mods r of
        Inl e \<Rightarrow> Inl e
      | Inr (v, trace, r1) \<Rightarrow> Inr (IntV v, traces @ [trace], r1))"

definition evaluate ::
  "'f float_ops \<Rightarrow> ast \<Rightarrow> rng \<Rightarrow> error + ('f num \<times> dice_trace list \<times> rng)" where
  "evaluate ops node r = eval_node ops node [] r"

section \<open>Tokenizer\<close>

text \<open>The nine groups of \<^verbatim>\<open>TOKEN_PATTERN\<close>, in the order of its alternatives.\<close>

datatype group =
    GNumber | GDice | GKeepDrop | GRerollExplode | GComparator | GSort | GOperator
  | GComment | GWhitespace

text \<open>
  Each alternative of the pattern, anchored at the start of \<open>s\<close>: the length it
  matches, if it matches. Every quantifier is greedy and nothing follows it inside its
  alternative, so an alternative that matches does so with its longest match. The pattern
  ignores case.
\<close>

definition m_number :: "string \<Rightarrow> nat option" where
  "m_number s =
     (if s \<noteq> [] \<and> is_digit (hd s) then Some (length (takeWhile is_digit s)) else None)"

definition m_dice :: "string \<Rightarrow> nat option" where
  "m_dice s =
     (case s of
        c # c2 # cs \<Rightarrow>
          if lower_char c \<noteq> CHR ''d'' then None
          else if c2 = CHR ''%'' \<or> lower_char c2 = CHR ''f'' then Some 2
          else if is_digit c2 then Some (Suc (length (takeWhile is_digit (c2 # cs))))
          else if take 2 (c2 # cs) = ''00'' then Some 3
          else None
      | _ \<Rightarrow> None)"

definition m_word :: "string list \<Rightarrow> string \<Rightarrow> nat option" where
  "m_word ws s = (if lower (take 2 s) \<in> set ws then Some 2 else None)"

definition m_reroll_explode :: "string \<Rightarrow> nat option" where
  "m_reroll_explode s =
     (case s of
        [] \<Rightarrow> None
      | c # cs \<Rightarrow>
          if lower_char c = CHR ''r''
            then Some (if cs \<noteq> [] \<and> lower_char (hd cs) = CHR ''o'' then 2 else 1)
          else if c = CHR ''!''
            then (let n = (if cs \<noteq> [] \<and> hd cs = CHR ''!'' then 2 else 1)
                  in Some (if drop n s \<noteq> [] \<and> lower_char (hd (drop n s)) = CHR ''p''
                           then Suc n else n))
          else None)"

definition m_comparator :: "string \<Rightarrow> nat option" where
  "m_comparator s =
     (if take 2 s = ''>='' \<or> take 2 s = ''<='' then Some 2
      else if s \<noteq> [] \<and> hd s \<in> set ''=><'' then Some 1
      else None)"

definition m_operator :: "string \<Rightarrow> nat option" where
  "m_operator s = (if s \<noteq> [] \<and> hd s \<in> set ''+-*/()'' then Some 1 else None)"

definition m_comment :: "string \<Rightarrow> nat option" where
  "m_comment s =
     (if s \<noteq> [] \<and> hd s = CHR ''#''
      then Some (Suc (length (takeWhile (\<lambda>x. x \<noteq> CHR 0x0A) (tl s)))) else None)"

definition m_whitespace :: "string \<Rightarrow> nat option" where
  "m_whitespace s =
     (if s \<noteq> [] \<and> is_space (hd s) then Some (length (takeWhile is_space s)) else None)"

text \<open>The first alternative that matches, with its group.\<close>

fun first_match :: "(group \<times> nat option) list \<Rightarrow> (group \<times> nat) option" where
  "first_match [] = None"
| "first_match ((g, None) # rest) = first_match rest"
| "first_match ((g, Some n) # rest) = Some (g, n)"

definition match_at :: "string \<Rightarrow> (group \<times> nat) option" where
  "match_at s =
     first_match
       [(GNumber, m_number s), (GDice, m_dice s),
        (GKeepDrop, m_word [''kh'', ''kl'', ''dh'', ''dl''] s),
        (GRerollExplode, m_reroll_explode s), (GComparator, m_comparator s),
        (GSort, m_word [''sa'', ''sd''] s), (GOperator, m_operator s),
        (GComment, m_comment s), (GWhitespace, m_whitespace s)]"

lemma takeWhile_hd_positive: "s \<noteq> [] \<Longrightarrow> P (hd s) \<Longrightarrow> 0 < length (takeWhile P s)"
  by (cases s) simp_all

lemma m_number_positive: "m_number s = Some n \<Longrightarrow> 0 < n \<and> n \<le> length s"
  using length_takeWhile_le [of is_digit "tl s"]
  by (cases s) (auto simp: m_number_def split: if_splits)

lemma m_dice_positive: "m_dice s = Some n \<Longrightarrow> 0 < n \<and> n \<le> length s"
proof (cases s)
  case Nil
  then show "m_dice s = Some n \<Longrightarrow> ?thesis" by (simp add: m_dice_def)
next
  case (Cons c t)
  assume m: "m_dice s = Some n"
  show ?thesis
  proof (cases t)
    case Nil
    with Cons m show ?thesis by (simp add: m_dice_def)
  next
    case (Cons c2 cs)
    have "length (takeWhile is_digit (c2 # cs)) \<le> Suc (length cs)"
      using length_takeWhile_le [of is_digit "c2 # cs"] by simp
    moreover have "take 2 (c2 # cs) = ''00'' \<Longrightarrow> cs \<noteq> []" by auto
    ultimately show ?thesis
      using m \<open>s = c # t\<close> Cons
      by (cases cs) (auto simp: m_dice_def split: if_splits)
  qed
qed

lemma m_word_positive: "[] \<notin> set ws \<Longrightarrow> \<forall>w \<in> set ws. length w = 2 \<Longrightarrow>
    m_word ws s = Some n \<Longrightarrow> 0 < n \<and> n \<le> length s"
proof -
  assume a: "\<forall>w \<in> set ws. length w = 2" and m: "m_word ws s = Some n"
  from m have n: "n = 2" and "lower (take 2 s) \<in> set ws"
    by (auto simp: m_word_def split: if_splits)
  with a have "length (lower (take 2 s)) = 2" by blast
  then have "2 \<le> length s" by (simp add: lower_def min_def split: if_splits)
  with n show ?thesis by simp
qed

lemma m_reroll_explode_positive:
  "m_reroll_explode s = Some n \<Longrightarrow> 0 < n \<and> n \<le> length s"
proof (cases s)
  case Nil
  then show "m_reroll_explode s = Some n \<Longrightarrow> ?thesis" by (simp add: m_reroll_explode_def)
next
  case (Cons c cs)
  assume m: "m_reroll_explode s = Some n"
  show ?thesis
  proof (cases cs)
    case Nil
    with Cons m show ?thesis by (auto simp: m_reroll_explode_def Let_def split: if_splits)
  next
    case (Cons c2 t)
    with \<open>s = c # cs\<close> m show ?thesis
      by (cases t) (auto simp: m_reroll_explode_def Let_def split: if_splits)
  qed
qed

lemma m_comparator_positive: "m_comparator s = Some n \<Longrightarrow> 0 < n \<and> n \<le> length s"
proof -
  assume m: "m_comparator s = Some n"
  have "take 2 s = ''>='' \<or> take 2 s = ''<='' \<Longrightarrow> 2 \<le> length s"
    by (cases s; cases "tl s") auto
  with m show ?thesis
    by (cases s) (auto simp: m_comparator_def split: if_splits)
qed

lemma m_operator_positive: "m_operator s = Some n \<Longrightarrow> 0 < n \<and> n \<le> length s"
  by (cases s) (auto simp: m_operator_def split: if_splits)

lemma m_comment_positive: "m_comment s = Some n \<Longrightarrow> 0 < n \<and> n \<le> length s"
  using length_takeWhile_le [of "\<lambda>x. x \<noteq> CHR 0x0A" "tl s"]
  by (cases s) (auto simp: m_comment_def split: if_splits)

lemma m_whitespace_positive: "m_whitespace s = Some n \<Longrightarrow> 0 < n \<and> n \<le> length s"
  using length_takeWhile_le [of is_space "tl s"]
  by (cases s) (auto simp: m_whitespace_def split: if_splits)

lemma first_match_in: "first_match xs = Some (g, n) \<Longrightarrow> (g, Some n) \<in> set xs"
  by (induction xs rule: first_match.induct) auto

lemma m_word_positive_2:
  "m_word [''kh'', ''kl'', ''dh'', ''dl''] s = Some n \<Longrightarrow> 0 < n \<and> n \<le> length s"
  "m_word [''sa'', ''sd''] s = Some n \<Longrightarrow> 0 < n \<and> n \<le> length s"
  by (rule m_word_positive; simp)+

lemma match_at_positive: "match_at s = Some (g, n) \<Longrightarrow> 0 < n \<and> n \<le> length s"
proof -
  assume "match_at s = Some (g, n)"
  then have "(g, Some n) \<in> set
       [(GNumber, m_number s), (GDice, m_dice s),
        (GKeepDrop, m_word [''kh'', ''kl'', ''dh'', ''dl''] s),
        (GRerollExplode, m_reroll_explode s), (GComparator, m_comparator s),
        (GSort, m_word [''sa'', ''sd''] s), (GOperator, m_operator s),
        (GComment, m_comment s), (GWhitespace, m_whitespace s)]"
    unfolding match_at_def by (rule first_match_in)
  then consider "m_number s = Some n" | "m_dice s = Some n"
    | "m_word [''kh'', ''kl'', ''dh'', ''dl''] s = Some n" | "m_reroll_explode s = Some n"
    | "m_comparator s = Some n" | "m_word [''sa'', ''sd''] s = Some n"
    | "m_operator s = Some n" | "m_comment s = Some n" | "m_whitespace s = Some n"
    by auto
  then show ?thesis
  proof cases
    case 1 then show ?thesis by (rule m_number_positive)
  next
    case 2 then show ?thesis by (rule m_dice_positive)
  next
    case 3 then show ?thesis by (rule m_word_positive_2)
  next
    case 4 then show ?thesis by (rule m_reroll_explode_positive)
  next
    case 5 then show ?thesis by (rule m_comparator_positive)
  next
    case 6 then show ?thesis by (rule m_word_positive_2)
  next
    case 7 then show ?thesis by (rule m_operator_positive)
  next
    case 8 then show ?thesis by (rule m_comment_positive)
  next
    case 9 then show ?thesis by (rule m_whitespace_positive)
  qed
qed

record token =
  tok_text :: string
  tok_pos :: nat

text \<open>
  \<^verbatim>\<open>finditer\<close> from offset \<open>p\<close>, where \<open>s\<close> is the text from \<open>p\<close> on: a match is taken where
  it starts, a character where nothing matches is passed over. Whitespace and comments
  give no token.
\<close>

function tokenize_from :: "nat \<Rightarrow> string \<Rightarrow> token list" where
  "tokenize_from p s =
     (if s = [] then []
      else case match_at s of
             None \<Rightarrow> tokenize_from (Suc p) (tl s)
           | Some (g, n) \<Rightarrow>
               (if g = GWhitespace \<or> g = GComment then []
                else [\<lparr>tok_text = take n s, tok_pos = p\<rparr>])
               @ tokenize_from (p + n) (drop n s))"
  by pat_completeness auto
termination
  by (relation "measure (\<lambda>(p, s). length s)") (auto dest: match_at_positive)

declare tokenize_from.simps [simp del]

text \<open>The tokenizer: the stripped text, its tokens and the index of the next token.\<close>

record tokenizer =
  ttext :: string
  tokens :: "token list"
  position :: nat

definition Tokenizer :: "string \<Rightarrow> tokenizer" where
  "Tokenizer txt =
     \<lparr>ttext = strip txt, tokens = tokenize_from 0 (strip txt), position = 0\<rparr>"

definition peek :: "nat \<Rightarrow> tokenizer \<Rightarrow> string option" where
  "peek offset t =
     (if position t + offset < length (tokens t)
      then Some (tok_text (tokens t ! (position t + offset))) else None)"

definition at_end :: "tokenizer \<Rightarrow> bool" where
  "at_end t = (position t \<ge> length (tokens t))"

text \<open>
  \<^verbatim>\<open>consume(expected)\<close>; \<open>None\<close> is the call without an argument. An empty expected
  string is false in the source's tests of \<^verbatim>\<open>expected\<close>.
\<close>

definition consume :: "string option \<Rightarrow> tokenizer \<Rightarrow> error + (string \<times> tokenizer)" where
  "consume expected t =
     (if position t \<ge> length (tokens t) then
        (case expected of
           Some e \<Rightarrow>
             if e \<noteq> [] then
               Inl (ParseError (''Expected '' @ quoted e @ '' but reached end of input'')
                      (length (ttext t)) (ttext t))
             else Inl (ParseError ''Unexpected end of input'' (length (ttext t)) (ttext t))
         | None \<Rightarrow> Inl (ParseError ''Unexpected end of input'' (length (ttext t)) (ttext t)))
      else
        (let tok = tokens t ! position t; t' = t\<lparr>position := position t + 1\<rparr>
         in case expected of
              Some e \<Rightarrow>
                if e \<noteq> [] \<and> lower (tok_text tok) \<noteq> lower e then
                  Inl (ParseError (''Expected '' @ quoted e @ '' but got '' @ quoted (tok_text tok))
                         (tok_pos tok) (ttext t))
                else Inr (tok_text tok, t')
            | None \<Rightarrow> Inr (tok_text tok, t')))"

text \<open>The offset of the token at index \<open>i\<close>, read where the source has checked \<open>i\<close>.\<close>

definition pos_at :: "tokenizer \<Rightarrow> nat \<Rightarrow> nat" where
  "pos_at t i = tok_pos (tokens t ! i)"

section \<open>Parser\<close>

text \<open>
  The three places that need a number after a token share their test, their error
  position (the next token's offset, or the end of the text) and the conversion of the
  digits; they differ in the message.
\<close>

definition next_isdigit :: "tokenizer \<Rightarrow> bool" where
  "next_isdigit t = (case peek 0 t of Some tok \<Rightarrow> isdigit tok | None \<Rightarrow> False)"

definition int_token :: "string \<Rightarrow> error + int" where
  "int_token s =
     (case py_int s of
        Some v \<Rightarrow> Inr v
      | None \<Rightarrow> Inl (OtherError ''ValueError'' (''invalid literal for int() with base 10: ''
                                                @ quoted s)))"

definition expect_number :: "string \<Rightarrow> tokenizer \<Rightarrow> error + (int \<times> tokenizer)" where
  "expect_number msg t =
     (if at_end t \<or> \<not> next_isdigit t then
        Inl (ParseError msg (if \<not> at_end t then pos_at t (position t) else length (ttext t))
               (ttext t))
      else
        (case consume None t of
           Inl e \<Rightarrow> Inl e
         | Inr (num, t') \<Rightarrow>
             (case int_token num of Inl e \<Rightarrow> Inl e | Inr v \<Rightarrow> Inr (v, t'))))"

text \<open>
  \<^verbatim>\<open>parse_condition\<close>. The default value is an integer for a reroll and \<^verbatim>\<open>'max'\<close> for an
  explosion; \<open>of_number\<close> is how a number that was read becomes a value of that kind.
\<close>

definition parse_condition ::
  "string \<Rightarrow> 'v \<Rightarrow> (int \<Rightarrow> 'v) \<Rightarrow> tokenizer \<Rightarrow> error + ('v condition \<times> tokenizer)" where
  "parse_condition default_op default_value of_number t =
     (case peek 0 t of
        None \<Rightarrow> Inr (Condition default_op default_value, t)
      | Some tok \<Rightarrow>
          if tok \<in> set [''>='', ''<='', ''='', ''>'', ''<''] then
            (case consume None t of
               Inl e \<Rightarrow> Inl e
             | Inr (opr, t1) \<Rightarrow>
                 (case expect_number (''Expected number after operator '' @ quoted opr) t1 of
                    Inl e \<Rightarrow> Inl e
                  | Inr (v, t2) \<Rightarrow> Inr (Condition opr (of_number v), t2)))
          else if isdigit tok then
            (case consume None t of
               Inl e \<Rightarrow> Inl e
             | Inr (num, t1) \<Rightarrow>
                 (case int_token num of
                    Inl e \<Rightarrow> Inl e
                  | Inr v \<Rightarrow> Inr (Condition ''='' (of_number v), t1)))
          else Inr (Condition default_op default_value, t))"

lemma consume_advances:
  "consume expected t = Inr (x, t') \<Longrightarrow>
     tokens t' = tokens t \<and> ttext t' = ttext t \<and> position t' = Suc (position t)
     \<and> position t < length (tokens t)"
  by (auto simp: consume_def Let_def split: if_splits option.splits)

lemma expect_number_advances:
  "expect_number msg t = Inr (v, t') \<Longrightarrow>
     tokens t' = tokens t \<and> ttext t' = ttext t \<and> position t' = Suc (position t)
     \<and> position t < length (tokens t)"
  by (auto simp: expect_number_def split: if_splits sum.splits dest: consume_advances)

lemma parse_condition_advances:
  "parse_condition default_op default_value of_number t = Inr (c, t') \<Longrightarrow>
     tokens t' = tokens t \<and> ttext t' = ttext t \<and> position t \<le> position t'
     \<and> position t' \<le> max (position t) (length (tokens t))"
  by (auto simp: parse_condition_def split: if_splits sum.splits option.splits
           dest!: consume_advances expect_number_advances)

definition no_modifiers :: modifiers where
  "no_modifiers =
     \<lparr>reroll = None, explode = None, keep = None, sort_mod = None, comparator = None\<rparr>"

text \<open>The \<^verbatim>\<open>while\<close> loop of \<^verbatim>\<open>parse_dice_modifiers\<close>.\<close>

function modifiers_loop :: "modifiers \<Rightarrow> tokenizer \<Rightarrow> error + (modifiers \<times> tokenizer)" where
  "modifiers_loop mods t =
     (if at_end t then Inr (mods, t)
      else case peek 0 t of
        None \<Rightarrow> Inr (mods, t)
      | Some tok \<Rightarrow>
          if tok = [] then Inr (mods, t)
          else if lower tok \<in> set [''r'', ''ro''] then
            (case consume None t of
               Inl e \<Rightarrow> Inl e
             | Inr (x, t1) \<Rightarrow>
                 (case parse_condition ''='' 1 (\<lambda>v. v) t1 of
                    Inl e \<Rightarrow> Inl e
                  | Inr (c, t2) \<Rightarrow>
                      modifiers_loop
                        (mods\<lparr>reroll := Some \<lparr>once = (lower tok = ''ro''), rcondition = c\<rparr>\<rparr>)
                        t2))
          else if lower tok \<in> set [''!'', ''!!'', ''!p''] then
            (case consume None t of
               Inl e \<Rightarrow> Inl e
             | Inr (explode_token, t1) \<Rightarrow>
                 (case parse_condition ''>='' CMax CInt t1 of
                    Inl e \<Rightarrow> Inl e
                  | Inr (c, t2) \<Rightarrow>
                      modifiers_loop
                        (mods\<lparr>explode := Some
                           \<lparr>penetrating = (CHR ''p'' \<in> set (lower explode_token)),
                            compound = (length explode_token = 2 \<and> explode_token = ''!!''),
                            econdition = c\<rparr>\<rparr>)
                        t2))
          else if lower tok \<in> set [''kh'', ''kl'', ''dh'', ''dl''] then
            (case consume None t of
               Inl e \<Rightarrow> Inl e
             | Inr (x, t1) \<Rightarrow>
                 (case expect_number (''Expected number after '' @ quoted (lower x)) t1 of
                    Inl e \<Rightarrow> Inl e
                  | Inr (number, t2) \<Rightarrow>
                      modifiers_loop
                        (mods\<lparr>keep := Some \<lparr>ktype = lower x, kcount = nat number\<rparr>\<rparr>) t2))
          else if lower tok \<in> set [''sa'', ''sd''] then
            (case consume None t of
               Inl e \<Rightarrow> Inl e
             | Inr (x, t1) \<Rightarrow> modifiers_loop (mods\<lparr>sort_mod := Some (lower x)\<rparr>) t1)
          else if lower tok \<in> set [''>='', ''<='', ''='', ''>'', ''<''] then
            (case consume None t of
               Inl e \<Rightarrow> Inl e
             | Inr (opr, t1) \<Rightarrow>
                 (case expect_number (''Expected number after comparator '' @ quoted opr) t1 of
                    Inl e \<Rightarrow> Inl e
                  | Inr (v, t2) \<Rightarrow> Inr (mods\<lparr>comparator := Some (Condition opr v)\<rparr>, t2)))
          else Inr (mods, t))"
  by pat_completeness auto
termination
proof (relation "measure (\<lambda>(mods, t). length (tokens t) - position t)", goal_cases)
  case 1
  show ?case by simp
next
  case (2 mods t tok a x t1 b c t2)
  then show ?case
    using consume_advances [of None t x t1]
      parse_condition_advances [of "''=''" 1 "\<lambda>v. v" t1 c t2] by auto
next
  case (3 mods t tok a x t1 b c t2)
  then show ?case
    using consume_advances [of None t x t1]
      parse_condition_advances [of "''>=''" CMax CInt t1 c t2] by auto
next
  case (4 mods t tok a x t1 b n t2)
  then show ?case
    using consume_advances [of None t x t1]
      expect_number_advances [of _ t1 n t2] by auto
next
  case (5 mods t tok a x t1)
  then show ?case using consume_advances [of None t x t1] by auto
qed

declare modifiers_loop.simps [simp del]

definition parse_dice_modifiers :: "tokenizer \<Rightarrow> error + (modifiers \<times> tokenizer)" where
  "parse_dice_modifiers t = modifiers_loop no_modifiers t"

text \<open>\<^verbatim>\<open>parse_dice\<close>: an optional count, the dice token, the limits, the modifiers.\<close>

definition dice_sides :: "string \<Rightarrow> (int \<times> string) option" where
  "dice_sides sides_str =
     (if sides_str = ''%'' \<or> sides_str = ''00'' then Some (100, ''d%'')
      else if sides_str = ''f'' \<or> sides_str = ''f.2'' then Some (3, ''dF'')
      else (case py_int sides_str of Some v \<Rightarrow> Some (v, ''d'') | None \<Rightarrow> None))"

definition parse_count :: "tokenizer \<Rightarrow> error + (nat \<times> tokenizer)" where
  "parse_count t =
     (if next_isdigit t then
        (case consume None t of
           Inl e \<Rightarrow> Inl e
         | Inr (num, t') \<Rightarrow>
             (case int_token num of Inl e \<Rightarrow> Inl e | Inr v \<Rightarrow> Inr (nat v, t')))
      else Inr (1, t))"

definition parse_dice :: "tokenizer \<Rightarrow> error + (ast \<times> tokenizer)" where
  "parse_dice t =
     (case parse_count t of
        Inl e \<Rightarrow> Inl e
      | Inr (cnt, t1) \<Rightarrow>
     (case consume None t1 of
        Inl e \<Rightarrow> Inl e
      | Inr (die_token, t2) \<Rightarrow>
          if \<not> startswith (lower die_token) ''d'' then
            Inl (ParseError (''Expected dice notation, got '' @ quoted die_token)
                   (pos_at t2 (position t2 - 1)) (ttext t2))
          else
            (case dice_sides (lower (tl die_token)) of
               None \<Rightarrow>
                 Inl (ParseError (''Invalid dice sides '' @ quoted (lower (tl die_token)))
                        (pos_at t2 (position t2 - 1)) (ttext t2))
             | Some (sides, die_type) \<Rightarrow>
                 if cnt > MAX_DICE
                   then Inl (LimitError ''Cannot roll more than 1000 dice per term'')
                 else if sides > MAX_SIDES
                   then Inl (LimitError ''Die cannot have more than 1000000000 sides'')
                 else if cnt < 1 then Inl (SemanticError ''Must roll at least 1 die'')
                 else if sides < 1 then Inl (SemanticError ''Die must have at least 1 side'')
                 else
                   (case parse_dice_modifiers t2 of
                      Inl e \<Rightarrow> Inl e
                    | Inr (mods, t3) \<Rightarrow> Inr (Dice cnt sides die_type mods, t3)))))"

definition parse_primary :: "tokenizer \<Rightarrow> error + (ast \<times> tokenizer)" where
  "parse_primary t =
     (case peek 0 t of
        None \<Rightarrow> Inl (ParseError ''Unexpected end of expression'' (length (ttext t)) (ttext t))
      | Some tok \<Rightarrow>
          if tok = [] then
            Inl (ParseError ''Unexpected end of expression'' (length (ttext t)) (ttext t))
          else if startswith (lower tok) ''d''
                  \<or> (isdigit tok
                      \<and> (case peek 1 t of
                           Some nxt \<Rightarrow> nxt \<noteq> [] \<and> startswith (lower nxt) ''d''
                         | None \<Rightarrow> False))
            then parse_dice t
          else if isdigit tok \<or> (startswith tok ''-'' \<and> isdigit (tl tok)) then
            (case consume None t of
               Inl e \<Rightarrow> Inl e
             | Inr (num, t') \<Rightarrow>
                 (case int_token num of Inl e \<Rightarrow> Inl e | Inr v \<Rightarrow> Inr (Number v, t')))
          else Inl (ParseError (''Unexpected token '' @ quoted tok) (pos_at t (position t))
                      (ttext t)))"

text \<open>
  The parser: its tokenizer and the depth of open parentheses. The mutually recursive
  \<^verbatim>\<open>parse_expression\<close>, \<^verbatim>\<open>parse_term\<close> and \<^verbatim>\<open>parse_factor\<close> take a bound on the number of
  nested calls; \<open>None\<close> says that the bound was too small.
\<close>

record dice_parser =
  tokenizer_of :: tokenizer
  recursion_depth :: nat

definition DiceParser :: "string \<Rightarrow> dice_parser" where
  "DiceParser txt = \<lparr>tokenizer_of = Tokenizer txt, recursion_depth = 0\<rparr>"

fun parse_expression :: "nat \<Rightarrow> dice_parser \<Rightarrow> (error + (ast \<times> dice_parser)) option"
  and expression_loop :: "nat \<Rightarrow> ast \<Rightarrow> dice_parser \<Rightarrow> (error + (ast \<times> dice_parser)) option"
  and parse_term :: "nat \<Rightarrow> dice_parser \<Rightarrow> (error + (ast \<times> dice_parser)) option"
  and term_loop :: "nat \<Rightarrow> ast \<Rightarrow> dice_parser \<Rightarrow> (error + (ast \<times> dice_parser)) option"
  and parse_factor :: "nat \<Rightarrow> dice_parser \<Rightarrow> (error + (ast \<times> dice_parser)) option" where
  "parse_expression 0 p = None"
| "parse_expression (Suc n) p =
     (case parse_term n p of
        None \<Rightarrow> None
      | Some (Inl e) \<Rightarrow> Some (Inl e)
      | Some (Inr (left, p1)) \<Rightarrow> expression_loop n left p1)"
| "expression_loop 0 left p = None"
| "expression_loop (Suc n) left p =
     (if at_end (tokenizer_of p) then Some (Inr (left, p))
      else case peek 0 (tokenizer_of p) of
        None \<Rightarrow> Some (Inr (left, p))
      | Some opr \<Rightarrow>
          if opr \<notin> set [''+'', ''-''] then Some (Inr (left, p))
          else
            (case consume None (tokenizer_of p) of
               Inl e \<Rightarrow> Some (Inl e)
             | Inr (x, t1) \<Rightarrow>
                 (case parse_term n (p\<lparr>tokenizer_of := t1\<rparr>) of
                    None \<Rightarrow> None
                  | Some (Inl e) \<Rightarrow> Some (Inl e)
                  | Some (Inr (right, p2)) \<Rightarrow>
                      expression_loop n (BinaryOp opr left right) p2)))"
| "parse_term 0 p = None"
| "parse_term (Suc n) p =
     (case parse_factor n p of
        None \<Rightarrow> None
      | Some (Inl e) \<Rightarrow> Some (Inl e)
      | Some (Inr (left, p1)) \<Rightarrow> term_loop n left p1)"
| "term_loop 0 left p = None"
| "term_loop (Suc n) left p =
     (if at_end (tokenizer_of p) then Some (Inr (left, p))
      else case peek 0 (tokenizer_of p) of
        None \<Rightarrow> Some (Inr (left, p))
      | Some opr \<Rightarrow>
          if opr \<notin> set [''*'', ''/''] then Some (Inr (left, p))
          else
            (case consume None (tokenizer_of p) of
               Inl e \<Rightarrow> Some (Inl e)
             | Inr (x, t1) \<Rightarrow>
                 (case parse_factor n (p\<lparr>tokenizer_of := t1\<rparr>) of
                    None \<Rightarrow> None
                  | Some (Inl e) \<Rightarrow> Some (Inl e)
                  | Some (Inr (right, p2)) \<Rightarrow>
                      term_loop n (BinaryOp opr left right) p2)))"
| "parse_factor 0 p = None"
| "parse_factor (Suc n) p =
     (if peek 0 (tokenizer_of p) = Some ''-'' then
        (case consume None (tokenizer_of p) of
           Inl e \<Rightarrow> Some (Inl e)
         | Inr (x, t1) \<Rightarrow>
             (case parse_factor n (p\<lparr>tokenizer_of := t1\<rparr>) of
                None \<Rightarrow> None
              | Some (Inl e) \<Rightarrow> Some (Inl e)
              | Some (Inr (operand, p2)) \<Rightarrow> Some (Inr (UnaryOp ''-'' operand, p2))))
      else if peek 0 (tokenizer_of p) = Some ''('' then
        (if recursion_depth p + 1 > MAX_RECURSION
           then Some (Inl (LimitError ''Exceeded maximum recursion depth of 32''))
         else
           (case consume (Some ''('') (tokenizer_of p) of
              Inl e \<Rightarrow> Some (Inl e)
            | Inr (x, t1) \<Rightarrow>
                (case parse_expression n
                        (p\<lparr>tokenizer_of := t1, recursion_depth := recursion_depth p + 1\<rparr>) of
                   None \<Rightarrow> None
                 | Some (Inl e) \<Rightarrow> Some (Inl e)
                 | Some (Inr (expr, p2)) \<Rightarrow>
                     (case consume (Some '')'') (tokenizer_of p2) of
                        Inl e \<Rightarrow> Some (Inl e)
                      | Inr (y, t3) \<Rightarrow>
                          Some (Inr (expr,
                                     p2\<lparr>tokenizer_of := t3,
                                        recursion_depth := recursion_depth p2 - 1\<rparr>))))))
      else
        (case parse_primary (tokenizer_of p) of
           Inl e \<Rightarrow> Some (Inl e)
         | Inr (node, t1) \<Rightarrow> Some (Inr (node, p\<lparr>tokenizer_of := t1\<rparr>))))"

text \<open>
  \<^verbatim>\<open>parse\<close>. Three nested calls for every token and three more are enough
  (\<open>parse_returns\<close> below), and that is the bound it passes.
\<close>

definition parse_fuel :: "dice_parser \<Rightarrow> nat" where
  "parse_fuel p = 3 * length (tokens (tokenizer_of p)) + 3"

definition parse :: "string \<Rightarrow> (error + ast) option" where
  "parse txt =
     (let p = DiceParser txt in
      if at_end (tokenizer_of p)
        then Some (Inl (ParseError ''Empty expression'' 0 (ttext (tokenizer_of p))))
      else
        (case parse_expression (parse_fuel p) p of
           None \<Rightarrow> None
         | Some (Inl e) \<Rightarrow> Some (Inl e)
         | Some (Inr (result, p1)) \<Rightarrow>
             (case peek 0 (tokenizer_of p1) of
                Some tok \<Rightarrow>
                  Some (Inl (ParseError (''Unexpected token '' @ quoted tok @ '' after expression'')
                               (pos_at (tokenizer_of p1) (position (tokenizer_of p1)))
                               (ttext (tokenizer_of p1))))
              | None \<Rightarrow> Some (Inr result))))"

section \<open>Entry point\<close>

datatype result_type = Sum_type | Success_count

text \<open>
  The result of \<^verbatim>\<open>roll_dice\<close>: the success dictionary with its final value, type and
  traces (its \<^verbatim>\<open>rng\<close>, \<^verbatim>\<open>limits\<close> and \<^verbatim>\<open>version\<close> entries are constants), or the error
  dictionary with its type, message, optional position and input.
\<close>

datatype 'f roll_result =
    Ok (final: "'f num") (rtype: result_type) (traces_of: "dice_trace list")
  | Failure (etype: string) (message: string) (eposition: "nat option") (input: string)

definition result_type_of :: "dice_trace list \<Rightarrow> result_type" where
  "result_type_of traces =
     (if list_ex (\<lambda>t. successes t \<noteq> None) traces then Success_count else Sum_type)"

text \<open>
  \<^verbatim>\<open>int(result) if ... result == int(result) else result\<close>; \<^verbatim>\<open>int\<close> of an infinity or
  of a NaN raises.
\<close>

definition final_value :: "'f float_ops \<Rightarrow> 'f num \<Rightarrow> error + 'f num" where
  "final_value ops result =
     (case result of
        IntV i \<Rightarrow> Inr (IntV i)
      | FloatV x \<Rightarrow>
          (case f_to_int ops x of
             None \<Rightarrow> Inl (OtherError ''OverflowError'' ''cannot convert float to integer'')
           | Some i \<Rightarrow> if f_eq_int ops x i then Inr (IntV i) else Inr (FloatV x)))"

text \<open>The three \<^verbatim>\<open>except\<close> clauses of \<^verbatim>\<open>roll_dice\<close>.\<close>

definition failure :: "error \<Rightarrow> string \<Rightarrow> 'f roll_result" where
  "failure e expression =
     (case e of
        ParseError msg pos input_str \<Rightarrow> Failure ''ParseError'' msg (Some pos) input_str
      | SemanticError msg \<Rightarrow> Failure ''SemanticError'' msg None expression
      | LimitError msg \<Rightarrow> Failure ''LimitError'' msg None expression
      | DiceError msg \<Rightarrow> Failure ''DiceError'' msg None expression
      | OtherError cls msg \<Rightarrow>
          Failure ''RuntimeError'' (''Unexpected error: '' @ msg) None expression)"

text \<open>
  \<^verbatim>\<open>roll_dice\<close>, given the floating-point operations and the entropy. \<open>None\<close> is the
  parser's bound on nested calls running out, which \<open>roll_dice_returns\<close> excludes.
\<close>

definition roll_dice :: "'f float_ops \<Rightarrow> string \<Rightarrow> rng \<Rightarrow> 'f roll_result option" where
  "roll_dice ops expression r =
     (case parse expression of
        None \<Rightarrow> None
      | Some (Inl e) \<Rightarrow> Some (failure e expression)
      | Some (Inr node) \<Rightarrow>
          (case evaluate ops node r of
             Inl e \<Rightarrow> Some (failure e expression)
           | Inr (result, traces, r') \<Rightarrow>
               (case final_value ops result of
                  Inl e \<Rightarrow> Some (failure e expression)
                | Inr v \<Rightarrow> Some (Ok v (result_type_of traces) traces))))"

section \<open>Properties of the die source\<close>

lemma bit_length_bounds: "n < 2 ^ bit_length n"
proof (induction n rule: bit_length.induct)
  case (1 n)
  show ?case
  proof (cases "n = 0")
    case True
    then show ?thesis by (simp add: bit_length.simps)
  next
    case False
    with 1 have "n div 2 < 2 ^ bit_length (n div 2)" by simp
    then have "n < 2 * 2 ^ bit_length (n div 2)" by linarith
    with False show ?thesis by (simp add: bit_length.simps [of n])
  qed
qed

lemma bytes_needed_covers:
  assumes "0 < sides"
  shows "sides < max_value sides"
proof -
  have "bit_length (nat \<bar>sides\<bar>) \<le> bytes_needed sides * 8"
    unfolding bytes_needed_def by linarith
  then have "(2::nat) ^ bit_length (nat \<bar>sides\<bar>) \<le> 2 ^ (bytes_needed sides * 8)"
    by (rule power_increasing) simp
  with bit_length_bounds [of "nat \<bar>sides\<bar>"]
  have "nat \<bar>sides\<bar> < 2 ^ (bytes_needed sides * 8)" by linarith
  then have "int (nat \<bar>sides\<bar>) < int (2 ^ (bytes_needed sides * 8))"
    by (simp only: of_nat_less_iff)
  with assms show ?thesis by (simp add: max_value_def)
qed

lemma div_mult_le_int:
  fixes v s :: int
  assumes "0 < s"
  shows "(v div s) * s \<le> v"
  using div_mult_mod_eq [of v s] pos_mod_sign [OF assms, of v] by linarith

lemma bound_positive:
  assumes "0 < sides"
  shows "0 < bound sides" and "bound sides \<le> max_value sides"
proof -
  have "sides \<le> max_value sides" using bytes_needed_covers [OF assms] by simp
  then have "1 \<le> max_value sides div sides"
    using assms int_one_le_iff_zero_less pos_imp_zdiv_pos_iff by blast
  with assms show "0 < bound sides" by (simp add: bound_def)
  show "bound sides \<le> max_value sides"
    unfolding bound_def using assms by (rule div_mult_le_int)
qed

lemma preimage_count:
  fixes s q k :: int
  assumes "0 < s" "0 \<le> q" "0 \<le> k" "k < s"
  shows "card {v. 0 \<le> v \<and> v < q * s \<and> v mod s = k} = nat q"
proof -
  have "{v. 0 \<le> v \<and> v < q * s \<and> v mod s = k} = (\<lambda>j. j * s + k) ` {0..<q}"
  proof (rule set_eqI, rule iffI)
    fix v
    assume "v \<in> {v. 0 \<le> v \<and> v < q * s \<and> v mod s = k}"
    then have v: "0 \<le> v" "v < q * s" "v mod s = k" by auto
    have eq: "v = (v div s) * s + k" using v(3) by (metis div_mult_mod_eq)
    have "0 \<le> v div s" using v(1) assms(1) by (simp add: pos_imp_zdiv_nonneg_iff)
    moreover have "v div s < q"
    proof (rule ccontr)
      assume "\<not> v div s < q"
      then have "q * s \<le> (v div s) * s" using assms(1) by (simp add: mult_right_mono)
      also have "\<dots> \<le> v" using assms(1) by (rule div_mult_le_int)
      finally show False using v(2) by simp
    qed
    ultimately show "v \<in> (\<lambda>j. j * s + k) ` {0..<q}" using eq by auto
  next
    fix v
    assume "v \<in> (\<lambda>j. j * s + k) ` {0..<q}"
    then obtain j where j: "0 \<le> j" "j < q" "v = j * s + k" by auto
    have "0 \<le> j * s" using j(1) assms(1) by simp
    then have "0 \<le> v" using j(3) assms(3) by simp
    moreover have "v < q * s"
    proof -
      have "j + 1 \<le> q" using j(2) by simp
      then have "(j + 1) * s \<le> q * s" using assms(1) by (simp add: mult_right_mono)
      then show ?thesis using j(3) assms(4) by (simp add: algebra_simps)
    qed
    moreover have "v mod s = k" using j(3) assms by simp
    ultimately show "v \<in> {v. 0 \<le> v \<and> v < q * s \<and> v mod s = k}" by simp
  qed
  moreover have "inj_on (\<lambda>j. j * s + k) {0..<q}"
    using assms(1) by (auto simp: inj_on_def)
  ultimately show ?thesis by (simp add: card_image)
qed

lemma bytes_needed_ceiling:
  "int (bytes_needed sides) = \<lceil>real (bit_length (nat \<bar>sides\<bar>)) / 8\<rceil>"
proof -
  have "\<lceil>real (bit_length (nat \<bar>sides\<bar>)) / 8\<rceil>
        = \<lceil>real_of_int (int (bit_length (nat \<bar>sides\<bar>))) / real_of_int 8\<rceil>" by simp
  also have "\<dots> = - (- int (bit_length (nat \<bar>sides\<bar>)) div 8)"
    by (rule ceiling_divide_eq_div)
  also have "\<dots> = int ((bit_length (nat \<bar>sides\<bar>) + 7) div 8)"
    by (simp add: zdiv_int)
  finally show ?thesis by (simp add: bytes_needed_def)
qed

lemma max_value_256: "max_value sides = 256 ^ bytes_needed sides"
proof -
  have "(2::int) ^ (bytes_needed sides * 8) = 2 ^ (8 * bytes_needed sides)"
    by (simp add: mult.commute)
  also have "\<dots> = (2 ^ 8) ^ bytes_needed sides" by (rule power_mult)
  finally show ?thesis by (simp add: max_value_def)
qed

lemma sample_loop_accept:
  assumes "int (from_bytes_big (fst (token_bytes (bytes_needed sides) r))) < bound sides"
  shows "sample_loop sides 0 r =
           (int (from_bytes_big (fst (token_bytes (bytes_needed sides) r))) mod sides + 1,
            snd (token_bytes (bytes_needed sides) r))"
  using assms by (simp add: sample_loop.simps [of sides 0 r])


definition draw :: "int \<Rightarrow> rng \<Rightarrow> nat \<Rightarrow> int" where
  "draw sides r k =
     int (from_bytes_big (fst (token_bytes (bytes_needed sides)
            (r\<lparr>consumed := consumed r + k * bytes_needed sides\<rparr>))))"

lemma sample_loop_accept_at:
  assumes "attempts < 10000"
    and "int (from_bytes_big (fst (token_bytes (bytes_needed sides) r))) < bound sides"
  shows "sample_loop sides attempts r =
           (int (from_bytes_big (fst (token_bytes (bytes_needed sides) r))) mod sides + 1,
            snd (token_bytes (bytes_needed sides) r))"
  using assms by (simp add: sample_loop.simps [of sides attempts r])

lemma sample_loop_reject_at:
  assumes "attempts < 10000"
    and "\<not> int (from_bytes_big (fst (token_bytes (bytes_needed sides) r))) < bound sides"
  shows "sample_loop sides attempts r =
           sample_loop sides (attempts + 1) (snd (token_bytes (bytes_needed sides) r))"
  using assms by (simp add: sample_loop.simps [of sides attempts r])

lemma draw_0: "draw sides r 0 = int (from_bytes_big (fst (token_bytes (bytes_needed sides) r)))"
  by (simp add: draw_def)

lemma draw_Suc:
  "draw sides (snd (token_bytes (bytes_needed sides) r)) k = draw sides r (Suc k)"
  by (simp add: draw_def token_bytes_def ac_simps)

lemma sample_loop_run:
  assumes "attempts + n < 10000"
    and "\<forall>k<n. \<not> draw sides r k < bound sides"
    and "draw sides r n < bound sides"
  shows "sample_loop sides attempts r =
           (draw sides r n mod sides + 1,
            r\<lparr>consumed := consumed r + (n + 1) * bytes_needed sides\<rparr>)"
  using assms
proof (induction n arbitrary: attempts r)
  case 0
  then have a: "attempts < 10000" by simp
  from 0 have "int (from_bytes_big (fst (token_bytes (bytes_needed sides) r))) < bound sides"
    by (simp add: draw_0)
  from sample_loop_accept_at [OF a this] show ?case
    by (simp add: draw_0 token_bytes_def)
next
  case (Suc n)
  let ?r1 = "snd (token_bytes (bytes_needed sides) r)"
  from Suc.prems have a: "attempts < 10000" by simp
  from Suc.prems(2) have "\<not> draw sides r 0 < bound sides" by blast
  then have "\<not> int (from_bytes_big (fst (token_bytes (bytes_needed sides) r))) < bound sides"
    by (simp add: draw_0)
  from sample_loop_reject_at [OF a this] have
    s: "sample_loop sides attempts r = sample_loop sides (attempts + 1) ?r1" .
  have b: "(attempts + 1) + n < 10000" using Suc.prems(1) by simp
  have c: "\<forall>k<n. \<not> draw sides ?r1 k < bound sides"
    using Suc.prems(2) by (simp add: draw_Suc)
  have d: "draw sides ?r1 n < bound sides" using Suc.prems(3) by (simp add: draw_Suc)
  have e: "?r1\<lparr>consumed := consumed ?r1 + (n + 1) * bytes_needed sides\<rparr>
           = r\<lparr>consumed := consumed r + (Suc n + 1) * bytes_needed sides\<rparr>"
    by (simp add: token_bytes_def ac_simps)
  from Suc.IH [OF b c d] have
    "sample_loop sides (attempts + 1) ?r1 =
       (draw sides r (Suc n) mod sides + 1,
        r\<lparr>consumed := consumed r + (Suc n + 1) * bytes_needed sides\<rparr>)"
    by (simp only: draw_Suc e)
  with s show ?case by simp
qed


text \<open>
  Claim C1. For \<open>2 \<le> sides \<le> MAX_SIDES\<close>, \<^verbatim>\<open>roll_die\<close> works with
  \<open>b = \<lceil>bit_length sides / 8\<rceil>\<close> bytes, \<open>max = 256 ^ b\<close> and
  \<open>bound = (max div sides) * sides\<close>, which is positive and at most \<open>max\<close>. A draw
  \<open>v < bound\<close> gives \<open>v mod sides + 1\<close>, which lies in \<open>[1, sides]\<close>, and every
  outcome \<open>k\<close> in \<open>[1, sides]\<close> has exactly \<open>bound div sides\<close> accepted draws in
  \<open>[0, bound)\<close>, so the accepted outcomes are equiprobable. The loop accepts a draw below
  \<open>bound\<close> at every attempt before the 10000th and returns \<open>v mod sides + 1\<close> with the
  bytes of that draw consumed; a draw that is not below \<open>bound\<close> is discarded and the loop
  goes to the next attempt on the bytes that follow. So when the first \<open>n\<close> draws are
  rejected and draw \<open>n\<close> is accepted, \<^verbatim>\<open>roll_die\<close> returns the value of draw \<open>n\<close>
  and has consumed \<open>(n + 1) * b\<close> bytes; \<open>draw sides r k\<close> is the number read from the
  \<open>k\<close>-th group of \<open>b\<close> bytes after the position of \<open>r\<close>.
\<close>

theorem roll_die_rejection_sampling:
  assumes "2 \<le> sides" and "sides \<le> MAX_SIDES"
  shows "int (bytes_needed sides) = \<lceil>real (bit_length (nat sides)) / 8\<rceil>
     \<and> max_value sides = 256 ^ bytes_needed sides
     \<and> bound sides = (max_value sides div sides) * sides
     \<and> 0 < bound sides \<and> bound sides \<le> max_value sides
     \<and> (\<forall>v. 0 \<le> v \<and> v < bound sides \<longrightarrow> 1 \<le> v mod sides + 1 \<and> v mod sides + 1 \<le> sides)
     \<and> (\<forall>k. 1 \<le> k \<and> k \<le> sides \<longrightarrow>
            card {v. 0 \<le> v \<and> v < bound sides \<and> v mod sides + 1 = k}
              = nat (bound sides div sides))
     \<and> (\<forall>r. int (from_bytes_big (fst (token_bytes (bytes_needed sides) r))) < bound sides \<longrightarrow>
            roll_die sides r =
              Inr (int (from_bytes_big (fst (token_bytes (bytes_needed sides) r))) mod sides + 1,
                   snd (token_bytes (bytes_needed sides) r)))
     \<and> (\<forall>r. roll_die sides r = Inr (sample_loop sides 0 r))
     \<and> (\<forall>r attempts. attempts < 10000
            \<and> int (from_bytes_big (fst (token_bytes (bytes_needed sides) r))) < bound sides \<longrightarrow>
            sample_loop sides attempts r =
              (int (from_bytes_big (fst (token_bytes (bytes_needed sides) r))) mod sides + 1,
               snd (token_bytes (bytes_needed sides) r)))
     \<and> (\<forall>r attempts. attempts < 10000
            \<and> \<not> int (from_bytes_big (fst (token_bytes (bytes_needed sides) r))) < bound sides \<longrightarrow>
            sample_loop sides attempts r =
              sample_loop sides (attempts + 1) (snd (token_bytes (bytes_needed sides) r)))
     \<and> (\<forall>r n. n < 10000 \<and> (\<forall>k<n. \<not> draw sides r k < bound sides)
            \<and> draw sides r n < bound sides \<longrightarrow>
            roll_die sides r =
              Inr (draw sides r n mod sides + 1,
                   r\<lparr>consumed := consumed r + (n + 1) * bytes_needed sides\<rparr>))"
proof -
  have pos: "0 < sides" using assms(1) by simp
  have abs: "\<bar>sides\<bar> = sides" using pos by simp
  have c1: "int (bytes_needed sides) = \<lceil>real (bit_length (nat sides)) / 8\<rceil>"
    using bytes_needed_ceiling [of sides] by (simp only: abs)
  have c2: "max_value sides = 256 ^ bytes_needed sides" by (rule max_value_256)
  have c3: "bound sides = (max_value sides div sides) * sides" by (simp add: bound_def)
  have c4: "0 < bound sides" and c4': "bound sides \<le> max_value sides"
    using bound_positive [OF pos] by simp_all
  have c5: "\<forall>v. 0 \<le> v \<and> v < bound sides \<longrightarrow> 1 \<le> v mod sides + 1 \<and> v mod sides + 1 \<le> sides"
    using pos pos_mod_sign [of sides] pos_mod_bound [of sides] by (simp add: add1_zle_eq)
  have q: "0 \<le> max_value sides div sides"
    using pos by (simp add: max_value_def pos_imp_zdiv_nonneg_iff)
  have bq: "bound sides div sides = max_value sides div sides"
    using pos by (simp add: bound_def)
  have c6: "\<forall>k. 1 \<le> k \<and> k \<le> sides \<longrightarrow>
            card {v. 0 \<le> v \<and> v < bound sides \<and> v mod sides + 1 = k}
              = nat (bound sides div sides)"
  proof (intro allI impI)
    fix k :: int
    assume k: "1 \<le> k \<and> k \<le> sides"
    have "{v. 0 \<le> v \<and> v < bound sides \<and> v mod sides + 1 = k}
          = {v. 0 \<le> v \<and> v < (max_value sides div sides) * sides \<and> v mod sides = k - 1}"
      by (auto simp: bound_def)
    moreover have "card {v. 0 \<le> v \<and> v < (max_value sides div sides) * sides \<and> v mod sides = k - 1}
          = nat (max_value sides div sides)"
      using pos q k by (intro preimage_count) auto
    ultimately show "card {v. 0 \<le> v \<and> v < bound sides \<and> v mod sides + 1 = k}
              = nat (bound sides div sides)"
      by (simp add: bq)
  qed
  have rd: "roll_die sides r = Inr (sample_loop sides 0 r)" for r
    using assms by (simp add: roll_die_def)
  have c7: "\<forall>r. int (from_bytes_big (fst (token_bytes (bytes_needed sides) r))) < bound sides \<longrightarrow>
            roll_die sides r =
              Inr (int (from_bytes_big (fst (token_bytes (bytes_needed sides) r))) mod sides + 1,
                   snd (token_bytes (bytes_needed sides) r))"
    by (simp add: rd sample_loop_accept)
  have c8: "\<forall>r. roll_die sides r = Inr (sample_loop sides 0 r)"
    by (simp add: rd)
  have c9: "\<forall>r attempts. attempts < 10000
            \<and> int (from_bytes_big (fst (token_bytes (bytes_needed sides) r))) < bound sides \<longrightarrow>
            sample_loop sides attempts r =
              (int (from_bytes_big (fst (token_bytes (bytes_needed sides) r))) mod sides + 1,
               snd (token_bytes (bytes_needed sides) r))"
    using sample_loop_accept_at by blast
  have c10: "\<forall>r attempts. attempts < 10000
            \<and> \<not> int (from_bytes_big (fst (token_bytes (bytes_needed sides) r))) < bound sides \<longrightarrow>
            sample_loop sides attempts r =
              sample_loop sides (attempts + 1) (snd (token_bytes (bytes_needed sides) r))"
    using sample_loop_reject_at by blast
  have c11: "\<forall>r n. n < 10000 \<and> (\<forall>k<n. \<not> draw sides r k < bound sides)
            \<and> draw sides r n < bound sides \<longrightarrow>
            roll_die sides r =
              Inr (draw sides r n mod sides + 1,
                   r\<lparr>consumed := consumed r + (n + 1) * bytes_needed sides\<rparr>)"
  proof (intro allI impI)
    fix r n
    assume h: "n < 10000 \<and> (\<forall>k<n. \<not> draw sides r k < bound sides)
            \<and> draw sides r n < bound sides"
    then have "0 + n < (10000::nat)" by simp
    from sample_loop_run [OF this] h show "roll_die sides r =
              Inr (draw sides r n mod sides + 1,
                   r\<lparr>consumed := consumed r + (n + 1) * bytes_needed sides\<rparr>)"
      by (simp only: rd) blast
  qed
  show ?thesis
    by (intro conjI) (rule c1 c2 c3 c4 c4' c5 c6 c7 c8 c9 c10 c11)+
qed

definition rejected_then_accepted :: "nat \<Rightarrow> byte" where
  "rejected_then_accepted i = (if i = 0 then 255 else 7)"

theorem roll_die_rejection_sampling_witness:
  "bytes_needed 6 = 1 \<and> max_value 6 = 256 \<and> bound 6 = 252
   \<and> card {v. 0 \<le> v \<and> v < bound 6 \<and> v mod 6 + 1 = 3} = 42
   \<and> roll_die 6 \<lparr>entropy = \<lambda>i. 7, consumed = 0\<rparr> = Inr (2, \<lparr>entropy = \<lambda>i. 7, consumed = 1\<rparr>)
   \<and> draw 6 \<lparr>entropy = rejected_then_accepted, consumed = 0\<rparr> 0 = 255
   \<and> draw 6 \<lparr>entropy = rejected_then_accepted, consumed = 0\<rparr> 1 = 7
   \<and> roll_die 6 \<lparr>entropy = rejected_then_accepted, consumed = 0\<rparr>
       = Inr (2, \<lparr>entropy = rejected_then_accepted, consumed = 2\<rparr>)"
proof -
  let ?e = "\<lparr>entropy = rejected_then_accepted, consumed = 0\<rparr>"
  have b: "bit_length 6 = 3" by (simp add: bit_length.simps)
  have n: "bytes_needed 6 = 1" by (simp add: bytes_needed_def b)
  have m: "max_value 6 = 256" by (simp add: max_value_def n)
  have bd: "bound 6 = 252" by (simp add: bound_def m)
  have h: "(2::int) \<le> 6 \<and> 6 \<le> MAX_SIDES" by (simp add: MAX_SIDES_def)
  have d: "int (from_bytes_big (fst (token_bytes (bytes_needed 6) \<lparr>entropy = \<lambda>i. 7, consumed = 0\<rparr>))) = 7"
    by (simp add: n token_bytes_def from_bytes_big_def)
  have d0: "draw 6 ?e 0 = 255"
    by (simp add: draw_def n token_bytes_def from_bytes_big_def rejected_then_accepted_def)
  have d1: "draw 6 ?e 1 = 7"
    by (simp add: draw_def n token_bytes_def from_bytes_big_def rejected_then_accepted_def)
  note t = roll_die_rejection_sampling [of 6, OF conjunct1 [OF h] conjunct2 [OF h]]
  note t2 = t [THEN conjunct2, THEN conjunct2, THEN conjunct2, THEN conjunct2,
                THEN conjunct2, THEN conjunct2]
  have "(1::int) \<le> 3 \<and> (3::int) \<le> 6" by simp
  with t2 [THEN conjunct1, THEN spec, of 3]
  have "card {v. 0 \<le> v \<and> v < bound 6 \<and> v mod 6 + 1 = 3} = nat (bound 6 div 6)"
    by (rule mp)
  then have k: "card {v. 0 \<le> v \<and> v < bound 6 \<and> v mod 6 + 1 = 3} = 42"
    by (simp only: bd)
  have "int (from_bytes_big (fst (token_bytes (bytes_needed 6) \<lparr>entropy = \<lambda>i. 7, consumed = 0\<rparr>)))
          < bound 6"
    by (simp only: d bd)
  with t2 [THEN conjunct2, THEN conjunct1, THEN spec, of "\<lparr>entropy = \<lambda>i. 7, consumed = 0\<rparr>"]
  have "roll_die 6 \<lparr>entropy = \<lambda>i. 7, consumed = 0\<rparr> =
          Inr (int (from_bytes_big (fst (token_bytes (bytes_needed 6) \<lparr>entropy = \<lambda>i. 7, consumed = 0\<rparr>))) mod 6 + 1,
               snd (token_bytes (bytes_needed 6) \<lparr>entropy = \<lambda>i. 7, consumed = 0\<rparr>))"
    by (rule mp)
  then have first: "roll_die 6 \<lparr>entropy = \<lambda>i. 7, consumed = 0\<rparr>
      = Inr (2, \<lparr>entropy = \<lambda>i. 7, consumed = 1\<rparr>)"
    by (simp only: d) (simp add: n token_bytes_def)
  have "(1::nat) < 10000 \<and> (\<forall>k<1. \<not> draw 6 ?e k < bound 6) \<and> draw 6 ?e 1 < bound 6"
    using d0 d1 bd by simp
  with t2 [THEN conjunct2, THEN conjunct2, THEN conjunct2, THEN conjunct2, THEN conjunct2,
           THEN spec, of ?e, THEN spec, of 1]
  have "roll_die 6 ?e = Inr (draw 6 ?e 1 mod 6 + 1,
          ?e\<lparr>consumed := consumed ?e + (1 + 1) * bytes_needed 6\<rparr>)"
    by (rule mp)
  then have second: "roll_die 6 ?e = Inr (2, \<lparr>entropy = rejected_then_accepted, consumed = 2\<rparr>)"
    using d1 n by simp
  from k n m bd first d0 d1 second show ?thesis by simp
qed








lemma bit_length_2: "bit_length 2 = 2"
proof -
  have z: "bit_length 0 = 0" by (simp add: bit_length.simps [of 0])
  have o: "bit_length (Suc 0) = Suc 0" using z by (simp add: bit_length.simps [of "Suc 0"])
  show ?thesis using o by (simp add: bit_length.simps [of 2])
qed

lemma bound_2: "bytes_needed 2 = 1" "bound 2 = 256"
  by (simp_all add: bytes_needed_def bound_def max_value_def bit_length_2)

lemma roll_die_2:
  "roll_die 2 \<lparr>entropy = e, consumed = n\<rparr>
     = Inr (int (unat (e n)) mod 2 + 1, \<lparr>entropy = e, consumed = Suc n\<rparr>)"
proof -
  have "uint (e n) < 256" using uint_bounded [of "e n"] by simp
  then show ?thesis
    by (simp add: roll_die_def MAX_SIDES_def sample_loop.simps [of 2 0] bound_2
          token_bytes_def from_bytes_big_def)
qed

definition example_entropy :: "nat \<Rightarrow> byte" where
  "example_entropy i = (if i = 0 then 1 else 0)"

lemma explode_example:
  "explode_one (Condition ''>='' 2) False ''d'' 2
     \<lparr>die_value = 2, rerolls = [], explodes = [], success = None\<rparr>
     \<lparr>entropy = example_entropy, consumed = Suc 0\<rparr>
   = Inr (\<lparr>die_value = 2, rerolls = [], explodes = [1], success = None\<rparr>,
          \<lparr>entropy = example_entropy, consumed = Suc (Suc 0)\<rparr>)"
  by (simp add: explode_one_def explode_loop.simps [of _ _ _ _ 0]
        explode_loop.simps [of _ _ _ _ "Suc 0"] roll_value_def roll_die_2 example_entropy_def
        check_condition_def MAX_EXPLOSIONS_def DieRoll_def)

text \<open>
  Claim C9. The term \<^verbatim>\<open>1d2!!\<close> (compound explosion) on entropy whose first draw gives a 2
  and whose second gives a 1: the explosion is recorded as a separate entry in the die's
  \<open>explodes\<close> list, the die's value stays 2, and the compound flag only shows in the term
  string. A compound explosion would have given the single die the running total 3.
\<close>

theorem compound_explosion_keeps_separate_entries:
  "eval_dice 1 2 ''d''
     \<lparr>reroll = None,
      explode = Some \<lparr>penetrating = False, compound = True, econdition = Condition ''>='' CMax\<rparr>,
      keep = None, sort_mod = None, comparator = None\<rparr>
     \<lparr>entropy = example_entropy, consumed = 0\<rparr>
   = Inr (2,
          \<lparr>term_str = ''1d2!!>=2'',
           rolls = [\<lparr>die_value = 2, rerolls = [], explodes = [1], success = None\<rparr>],
           keptValues = None, sum_opt = Some 2, threshold = None, successes = None\<rparr>,
          \<lparr>entropy = example_entropy, consumed = 2\<rparr>)"
proof -
  have r: "roll_die 2 \<lparr>entropy = example_entropy, consumed = 0\<rparr>
             = Inr (2, \<lparr>entropy = example_entropy, consumed = Suc 0\<rparr>)"
    by (simp add: roll_die_2 example_entropy_def)
  have s: "str_nat (Suc 0) = ''1''" "str_nat 2 = ''2''"
    by (simp_all add: str_nat.simps [of "Suc 0"] str_nat.simps [of 2] digit_char_def)
  show ?thesis
    by (simp add: eval_dice_def reroll_stage_def explode_stage_def keep_stage_def dice_result_def roll_value_def r apply_explosions_def resolve_max_def explode_example
          term_string_def format_condition_def str_value_def str_int_def s DieRoll_def)
qed

definition keep_only :: "string \<Rightarrow> nat \<Rightarrow> modifiers" where
  "keep_only how k =
     \<lparr>reroll = None, explode = None, keep = Some \<lparr>ktype = how, kcount = k\<rparr>,
      sort_mod = None, comparator = None\<rparr>"

lemma roll_all_d1: "roll_all n ''d'' 1 r = Inr (replicate n (DieRoll 1), r)"
  by (induction n) (simp_all add: roll_value_def roll_die_def MAX_SIDES_def)

lemma sort_replicate: "sort (replicate n (x::int)) = replicate n x"
  by (simp add: sorted_replicate sorted_sort_id)

lemma eval_dice_keep_d1:
  "eval_dice n 1 ''d'' (keep_only how k) r =
     (case apply_keep_drop (replicate n (DieRoll 1)) \<lparr>ktype = how, kcount = k\<rparr> of
        Inl e \<Rightarrow> Inl e
      | Inr None \<Rightarrow>
          Inr (int n, \<lparr>term_str = term_string n 1 ''d'' (keep_only how k),
                       rolls = replicate n (DieRoll 1), keptValues = None,
                       sum_opt = Some (int n), threshold = None, successes = None\<rparr>, r)
      | Inr (Some kv) \<Rightarrow>
          Inr (sum_list kv, \<lparr>term_str = term_string n 1 ''d'' (keep_only how k),
                       rolls = replicate n (DieRoll 1), keptValues = Some kv,
                       sum_opt = Some (sum_list kv), threshold = None, successes = None\<rparr>, r))"
  by (simp add: eval_dice_def reroll_stage_def explode_stage_def keep_stage_def dice_result_def roll_all_d1 keep_only_def DieRoll_def sum_list_replicate
           split: sum.splits option.splits)

lemma nat_int_diff: "nat (int n - int k) = n - k"
  by arith

lemma keep_drop_d1:
  "k \<le> n \<Longrightarrow> apply_keep_drop (replicate n (DieRoll 1)) \<lparr>ktype = ''kh'', kcount = k\<rparr>
     = Inr (Some (replicate k 1))"
  "k \<le> n \<Longrightarrow> apply_keep_drop (replicate n (DieRoll 1)) \<lparr>ktype = ''dh'', kcount = k\<rparr>
     = Inr (Some (replicate (n - k) 1))"
  "0 < k \<Longrightarrow> k \<le> n \<Longrightarrow> apply_keep_drop (replicate n (DieRoll 1)) \<lparr>ktype = ''kl'', kcount = k\<rparr>
     = Inr (Some (replicate k 1))"
  "0 < k \<Longrightarrow> k \<le> n \<Longrightarrow> apply_keep_drop (replicate n (DieRoll 1)) \<lparr>ktype = ''dl'', kcount = k\<rparr>
     = Inr (Some (replicate (n - k) 1))"
  "apply_keep_drop (replicate n (DieRoll 1)) \<lparr>ktype = ''kl'', kcount = 0\<rparr>
     = Inr (Some (replicate n 1))"
  "apply_keep_drop (replicate n (DieRoll 1)) \<lparr>ktype = ''dl'', kcount = 0\<rparr>
     = Inr (Some [])"
  by (simp_all add: apply_keep_drop_def die_total_def DieRoll_def sort_replicate
        slice_to_def slice_from_def min_def nat_int_diff)

text \<open>
  Claim C3. Four one-sided dice (every outcome is 1): \<^verbatim>\<open>4d1dl0\<close> sums to 0 where
  \<^verbatim>\<open>4d1kh4\<close> sums to 4, and \<^verbatim>\<open>4d1dh4\<close> sums to 0 where \<^verbatim>\<open>4d1kl0\<close> sums to 4. The slice
  \<^verbatim>\<open>sorted_values[:-count]\<close> is empty and \<^verbatim>\<open>sorted_values[-count:]\<close> is the whole list when
  \<^verbatim>\<open>count\<close> is 0.
\<close>

theorem keep_drop_complement_breaks_at_zero:
  "(\<exists>t. eval_dice 4 1 ''d'' (keep_only ''dl'' 0) r = Inr (0, t, r))
   \<and> (\<exists>t. eval_dice 4 1 ''d'' (keep_only ''kh'' 4) r = Inr (4, t, r))
   \<and> (\<exists>t. eval_dice 4 1 ''d'' (keep_only ''dh'' 4) r = Inr (0, t, r))
   \<and> (\<exists>t. eval_dice 4 1 ''d'' (keep_only ''kl'' 0) r = Inr (4, t, r))"
  by (simp add: eval_dice_keep_d1 keep_drop_d1 sum_list_replicate)

text \<open>
  Away from the two boundary cases the keep and drop modifiers are complementary: for
  \<open>K\<close> at most the number \<open>N\<close> of dice, drop-highest \<open>K\<close> keeps the same values as
  keep-lowest \<open>N - K\<close> when \<open>K < N\<close>, and drop-lowest \<open>K\<close> the same as keep-highest
  \<open>N - K\<close> when \<open>0 < K\<close>.
\<close>

theorem keep_drop_complement_inside:
  assumes "K \<le> length rs"
  shows "(K < length rs \<longrightarrow>
            apply_keep_drop rs \<lparr>ktype = ''dh'', kcount = K\<rparr>
              = apply_keep_drop rs \<lparr>ktype = ''kl'', kcount = length rs - K\<rparr>)
       \<and> (0 < K \<longrightarrow>
            apply_keep_drop rs \<lparr>ktype = ''dl'', kcount = K\<rparr>
              = apply_keep_drop rs \<lparr>ktype = ''kh'', kcount = length rs - K\<rparr>)"
  using assms
  by (auto simp: apply_keep_drop_def slice_to_def slice_from_def Let_def nat_int_diff
        of_nat_diff)

theorem keep_drop_complement_inside_witness:
  "apply_keep_drop [DieRoll 3, DieRoll 5, DieRoll 1] \<lparr>ktype = ''dh'', kcount = 1\<rparr> = Inr (Some [3, 1])
   \<and> apply_keep_drop [DieRoll 3, DieRoll 5, DieRoll 1] \<lparr>ktype = ''kl'', kcount = 2\<rparr> = Inr (Some [3, 1])
   \<and> apply_keep_drop [DieRoll 3, DieRoll 5, DieRoll 1] \<lparr>ktype = ''dl'', kcount = 1\<rparr> = Inr (Some [5, 3])
   \<and> apply_keep_drop [DieRoll 3, DieRoll 5, DieRoll 1] \<lparr>ktype = ''kh'', kcount = 2\<rparr> = Inr (Some [5, 3])"
proof -
  let ?rs = "[DieRoll 3, DieRoll 5, DieRoll 1]"
  have h: "(1::nat) \<le> length ?rs" by simp
  have a: "(1::nat) < length ?rs" and b: "0 < (1::nat)" by simp_all
  note t = keep_drop_complement_inside [OF h]
  have dh: "apply_keep_drop ?rs \<lparr>ktype = ''dh'', kcount = 1\<rparr> = Inr (Some [3, 1])"
    by (simp add: apply_keep_drop_def die_total_def DieRoll_def slice_from_def)
  have dl: "apply_keep_drop ?rs \<lparr>ktype = ''dl'', kcount = 1\<rparr> = Inr (Some [5, 3])"
    by (simp add: apply_keep_drop_def die_total_def DieRoll_def slice_to_def)
  have "apply_keep_drop ?rs \<lparr>ktype = ''kl'', kcount = length ?rs - 1\<rparr> = Inr (Some [3, 1])"
    using t [THEN conjunct1, THEN mp, OF a] dh by simp
  moreover have "apply_keep_drop ?rs \<lparr>ktype = ''kh'', kcount = length ?rs - 1\<rparr> = Inr (Some [5, 3])"
    using t [THEN conjunct2, THEN mp, OF b] dl by simp
  ultimately show ?thesis using dh dl by (simp add: numeral_2_eq_2)
qed

definition in_domain :: "string \<Rightarrow> int \<Rightarrow> int \<Rightarrow> bool" where
  "in_domain die_type sides v =
     (if die_type = ''dF'' then v \<in> {- 1, 0, 1} else 1 \<le> v \<and> v \<le> sides)"

lemma from_bytes_nonneg: "0 \<le> int (from_bytes_big bs)"
  by simp

lemma sample_loop_range:
  assumes "0 < sides"
  shows "1 \<le> fst (sample_loop sides a r) \<and> fst (sample_loop sides a r) \<le> sides"
  using assms
proof (induction sides a r rule: sample_loop.induct)
  case (1 sides attempts r)
  have m: "\<And>v::int. 0 \<le> v mod sides \<and> v mod sides + 1 \<le> sides"
    using 1(2) pos_mod_sign [of sides] pos_mod_bound [of sides] by (simp add: add1_zle_eq)
  show ?case
  proof (cases "attempts < 10000")
    case True
    show ?thesis
    proof (cases "int (from_bytes_big (fst (token_bytes (bytes_needed sides) r))) < bound sides")
      case acc: True
      then show ?thesis using True m by (simp add: sample_loop.simps [of sides attempts r])
    next
      case rej: False
      then show ?thesis
        using True 1(1) [OF True rej 1(2)] by (simp add: sample_loop.simps [of sides attempts r])
    qed
  next
    case False
    then show ?thesis
      using m by (simp add: sample_loop.simps [of sides attempts r] randbelow_def split: prod.splits)
  qed
qed

lemma roll_die_range:
  assumes "roll_die sides r = Inr (v, r')"
  shows "1 \<le> v \<and> v \<le> sides"
proof (cases "sides = 1")
  case True
  with assms show ?thesis by (simp add: roll_die_def MAX_SIDES_def)
next
  case False
  with assms have s: "0 < sides" and v: "v = fst (sample_loop sides 0 r)"
    by (auto simp: roll_die_def split: if_splits)
  show ?thesis using sample_loop_range [OF s, of 0 r] v by simp
qed

lemma roll_value_domain:
  assumes "roll_value die_type sides r = Inr (v, r')"
  shows "in_domain die_type sides v"
proof (cases "die_type = ''dF''")
  case True
  with assms obtain w where "roll_die 3 r = Inr (w, r')" and "v = w - 2"
    by (auto simp: roll_value_def split: sum.splits)
  with roll_die_range [of 3 r w r'] True show ?thesis by (auto simp: in_domain_def)
next
  case False
  with assms roll_die_range [of sides r v r'] show ?thesis
    by (simp add: roll_value_def in_domain_def)
qed

lemma roll_all_domain:
  "roll_all n die_type sides r = Inr (rs, r') \<Longrightarrow>
     length rs = n \<and> (\<forall>x \<in> set rs. in_domain die_type sides (die_value x)
        \<and> rerolls x = [] \<and> explodes x = [] \<and> success x = None)"
proof (induction n arbitrary: rs r)
  case 0
  then show ?case by simp
next
  case (Suc n)
  from Suc.prems obtain v r1 rs1 where
    a: "roll_value die_type sides r = Inr (v, r1)" and
    b: "roll_all n die_type sides r1 = Inr (rs1, r')" and
    c: "rs = DieRoll v # rs1"
    by (auto split: sum.splits)
  from Suc.IH [OF b] roll_value_domain [OF a] c show ?case by (simp add: DieRoll_def)
qed

lemma reroll_loop_stop:
  assumes "\<not> (check_condition (die_value roll) cond \<and> c < MAX_REROLLS)"
  shows "reroll_loop cond onc die_type sides c roll r = Inr (roll, c, r)"
  using assms by (subst reroll_loop.simps) auto

text \<open>What one run of the reroll loop does to a die.\<close>

lemma reroll_loop_result:
  assumes "reroll_loop cond onc die_type sides c roll r = Inr (roll', c', r')"
  shows "c \<le> c'
     \<and> (\<exists>olds. rerolls roll' = rerolls roll @ olds \<and> length olds = c' - c
           \<and> (\<forall>v \<in> set olds. check_condition v cond))
     \<and> (onc \<longrightarrow> c' \<le> c + 1)
     \<and> (\<not> onc \<longrightarrow> \<not> check_condition (die_value roll') cond \<or> MAX_REROLLS \<le> c')
     \<and> (c < MAX_REROLLS \<longrightarrow> c' \<le> MAX_REROLLS)
     \<and> explodes roll' = explodes roll \<and> success roll' = success roll
     \<and> (in_domain die_type sides (die_value roll) \<longrightarrow>
           in_domain die_type sides (die_value roll'))"
  using assms
proof (induction cond onc die_type sides c roll r arbitrary: roll' c' r'
       rule: reroll_loop.induct)
  case (1 cond onc die_type sides c roll r)
  have eq: "(if check_condition (die_value roll) cond \<and> c < MAX_REROLLS then
        (case roll_value die_type sides r of
           Inl e \<Rightarrow> Inl e
         | Inr (v, r') \<Rightarrow>
             if onc
             then Inr (roll\<lparr>die_value := v, rerolls := rerolls roll @ [die_value roll]\<rparr>,
                       c + 1, r')
             else reroll_loop cond onc die_type sides (c + 1)
                    (roll\<lparr>die_value := v, rerolls := rerolls roll @ [die_value roll]\<rparr>) r')
      else Inr (roll, c, r)) = Inr (roll', c', r')"
    using 1(2) by (simp only: reroll_loop.simps [of cond onc die_type sides c roll r])
  show ?case
  proof (cases "check_condition (die_value roll) cond \<and> c < MAX_REROLLS")
    case False
    with eq have "roll' = roll" "c' = c" by simp_all
    with False show ?thesis by auto
  next
    case True
    from True eq obtain v r1 where
      rv: "roll_value die_type sides r = Inr (v, r1)"
      by (auto split: sum.splits)
    let ?roll1 = "roll\<lparr>die_value := v, rerolls := rerolls roll @ [die_value roll]\<rparr>"
    have dom: "in_domain die_type sides v" using roll_value_domain [OF rv] .
    show ?thesis
    proof (cases onc)
      case onc: True
      with True rv eq have "roll' = ?roll1" "c' = c + 1" by simp_all
      with True onc dom show ?thesis by auto
    next
      case nonc: False
      with True rv eq have
        rec: "reroll_loop cond onc die_type sides (c + 1) ?roll1 r1 = Inr (roll', c', r')"
        by simp
      note ih = 1(1) [OF True rv refl nonc rec]
      from ih obtain olds where
        o: "rerolls roll' = rerolls ?roll1 @ olds" "length olds = c' - (c + 1)"
           "\<forall>v \<in> set olds. check_condition v cond"
        by blast
      have "rerolls roll' = rerolls roll @ (die_value roll # olds)" using o(1) by simp
      moreover have "length (die_value roll # olds) = c' - c"
      proof -
        have "c + 1 \<le> c'" using ih by blast
        then show ?thesis using o(2) by simp
      qed
      moreover have "\<forall>v \<in> set (die_value roll # olds). check_condition v cond"
        using o(3) True by simp
      ultimately have ex: "\<exists>olds. rerolls roll' = rerolls roll @ olds \<and> length olds = c' - c
           \<and> (\<forall>v \<in> set olds. check_condition v cond)" by blast
      have lim: "c < MAX_REROLLS \<longrightarrow> c' \<le> MAX_REROLLS"
      proof (cases "c + 1 < MAX_REROLLS")
        case True
        with ih show ?thesis by simp
      next
        case False
        with True have e: "c + 1 = MAX_REROLLS" by simp
        have "\<not> (check_condition (die_value ?roll1) cond \<and> c + 1 < MAX_REROLLS)"
          using False by simp
        from rec reroll_loop_stop [OF this, of onc die_type sides r1] have "c' = c + 1"
          by simp
        with e show ?thesis by simp
      qed
      from ih ex lim nonc dom show ?thesis by simp
    qed
  qed
qed

lemma reroll_one_result:
  assumes "reroll_one cond onc die_type sides roll r = Inr (roll', r')"
  shows "(\<exists>olds. rerolls roll' = rerolls roll @ olds \<and> length olds < MAX_REROLLS
           \<and> (onc \<longrightarrow> length olds \<le> 1)
           \<and> (\<forall>v \<in> set olds. check_condition v cond))
     \<and> (\<not> onc \<longrightarrow> \<not> check_condition (die_value roll') cond)
     \<and> explodes roll' = explodes roll \<and> success roll' = success roll
     \<and> (in_domain die_type sides (die_value roll) \<longrightarrow>
           in_domain die_type sides (die_value roll'))"
proof -
  from assms obtain c' where
    l: "reroll_loop cond onc die_type sides 0 roll r = Inr (roll', c', r')" and
    c: "c' < MAX_REROLLS"
    by (auto simp: reroll_one_def split: sum.splits if_splits)
  note t = reroll_loop_result [OF l]
  from t obtain olds where
    o: "rerolls roll' = rerolls roll @ olds" "length olds = c'"
       "\<forall>v \<in> set olds. check_condition v cond"
    by auto
  have "length olds < MAX_REROLLS \<and> (onc \<longrightarrow> length olds \<le> 1)" using o(2) c t by simp
  with o have "\<exists>olds. rerolls roll' = rerolls roll @ olds \<and> length olds < MAX_REROLLS
           \<and> (onc \<longrightarrow> length olds \<le> 1)
           \<and> (\<forall>v \<in> set olds. check_condition v cond)" by blast
  moreover have "\<not> onc \<longrightarrow> \<not> check_condition (die_value roll') cond" using t c by auto
  ultimately show ?thesis using t by simp
qed



lemma apply_rerolls_result:
  assumes "apply_rerolls rs sides die_type spec r = Inr (rs', r')"
  shows "list_all2 (\<lambda>roll roll'.
           (\<exists>olds. rerolls roll' = rerolls roll @ olds \<and> length olds < MAX_REROLLS
              \<and> (once spec \<longrightarrow> length olds \<le> 1)
              \<and> (\<forall>v \<in> set olds. check_condition v (rcondition spec)))
           \<and> (\<not> once spec \<longrightarrow> \<not> check_condition (die_value roll') (rcondition spec))
           \<and> explodes roll' = explodes roll \<and> success roll' = success roll
           \<and> (in_domain die_type sides (die_value roll) \<longrightarrow>
                 in_domain die_type sides (die_value roll'))) rs rs'"
  using assms
proof (induction rs arbitrary: r rs')
  case Nil
  then show ?case by simp
next
  case (Cons roll rest)
  from Cons.prems obtain roll' r1 rest' where
    a: "reroll_one (rcondition spec) (once spec) die_type sides roll r = Inr (roll', r1)" and
    b: "apply_rerolls rest sides die_type spec r1 = Inr (rest', r')" and
    c: "rs' = roll' # rest'"
    by (auto split: sum.splits)
  from reroll_one_result [OF a] Cons.IH [OF b] c show ?case by simp
qed



lemma explode_loop_frame:
  assumes "explode_loop cond pen die_type sides c cur roll r = Inr (roll', c', r')"
  shows "die_value roll' = die_value roll \<and> rerolls roll' = rerolls roll
         \<and> success roll' = success roll"
  using assms
proof (induction cond pen die_type sides c cur roll r arbitrary: roll' c' r'
       rule: explode_loop.induct)
  case (1 cond pen die_type sides c cur roll r)
  have eq: "(if check_condition cur cond \<and> c < MAX_EXPLOSIONS then
        (case roll_value die_type sides r of
           Inl e \<Rightarrow> Inl e
         | Inr (v, r') \<Rightarrow>
             explode_loop cond pen die_type sides (c + 1)
               (if pen \<and> v > 0 then v - 1 else v)
               (roll\<lparr>explodes := explodes roll @ [if pen \<and> v > 0 then v - 1 else v]\<rparr>) r')
      else Inr (roll, c, r)) = Inr (roll', c', r')"
    using 1(2) by (simp only: explode_loop.simps [of cond pen die_type sides c cur roll r])
  show ?case
  proof (cases "check_condition cur cond \<and> c < MAX_EXPLOSIONS")
    case False
    with eq show ?thesis by simp
  next
    case True
    from True eq obtain v r1 where
      rv: "roll_value die_type sides r = Inr (v, r1)"
      by (auto split: sum.splits)
    with True eq have rec: "explode_loop cond pen die_type sides (c + 1)
               (if pen \<and> v > 0 then v - 1 else v)
               (roll\<lparr>explodes := explodes roll @ [if pen \<and> v > 0 then v - 1 else v]\<rparr>) r1
             = Inr (roll', c', r')"
      by simp
    from 1(1) [OF True rv refl rec] show ?thesis by simp
  qed
qed

lemma explode_all_frame:
  assumes "explode_all cond pen die_type sides rs r = Inr (rs', r')"
  shows "list_all2 (\<lambda>roll roll'. die_value roll' = die_value roll
            \<and> rerolls roll' = rerolls roll \<and> success roll' = success roll) rs rs'"
  using assms
proof (induction rs arbitrary: r rs')
  case Nil
  then show ?case by simp
next
  case (Cons roll rest)
  from Cons.prems obtain roll' r1 rest' where
    a: "explode_one cond pen die_type sides roll r = Inr (roll', r1)" and
    b: "explode_all cond pen die_type sides rest r1 = Inr (rest', r')" and
    c: "rs' = roll' # rest'"
    by (auto split: sum.splits)
  from a obtain c' where
    "explode_loop cond pen die_type sides 0 (die_value roll) roll r = Inr (roll', c', r1)"
    by (auto simp: explode_one_def split: sum.splits if_splits)
  from explode_loop_frame [OF this] Cons.IH [OF b] c show ?case by simp
qed

text \<open>What holds of a die once its rerolls are done, for the reroll modifier of the term.\<close>

definition settled :: "string \<Rightarrow> int \<Rightarrow> reroll_spec option \<Rightarrow> die_roll \<Rightarrow> bool" where
  "settled die_type sides spec roll =
     (in_domain die_type sides (die_value roll)
      \<and> (case spec of
            None \<Rightarrow> rerolls roll = []
          | Some s \<Rightarrow>
              list_all (\<lambda>v. check_condition v (rcondition s)) (rerolls roll)
              \<and> (if once s then length (rerolls roll) \<le> 1
                  else \<not> check_condition (die_value roll) (rcondition s))))"

lemma reroll_stage_settled:
  assumes "roll_all n die_type sides r = Inr (rs0, r1)"
    and "reroll_stage mods rs0 sides die_type r1 = Inr (rs1, r2)"
  shows "list_all (settled die_type sides (reroll mods)) rs1"
proof (cases "reroll mods")
  case None
  with assms(2) have "rs1 = rs0" by (simp add: reroll_stage_def)
  with roll_all_domain [OF assms(1)] None show ?thesis
    by (simp add: settled_def list_all_iff)
next
  case (Some spec)
  with assms(2) have "apply_rerolls rs0 sides die_type spec r1 = Inr (rs1, r2)"
    by (simp add: reroll_stage_def)
  from apply_rerolls_result [OF this] have
    l: "length rs0 = length rs1" and
    p: "\<And>i. i < length rs0 \<Longrightarrow>
         (\<exists>olds. rerolls (rs1 ! i) = rerolls (rs0 ! i) @ olds
            \<and> (once spec \<longrightarrow> length olds \<le> 1)
            \<and> (\<forall>v \<in> set olds. check_condition v (rcondition spec)))
         \<and> (\<not> once spec \<longrightarrow> \<not> check_condition (die_value (rs1 ! i)) (rcondition spec))
         \<and> (in_domain die_type sides (die_value (rs0 ! i)) \<longrightarrow>
               in_domain die_type sides (die_value (rs1 ! i)))"
    unfolding list_all2_conv_all_nth by blast+
  have "settled die_type sides (reroll mods) (rs1 ! i)" if "i < length rs1" for i
  proof -
    have i: "i < length rs0" using that l by simp
    then have "rs0 ! i \<in> set rs0" by simp
    with roll_all_domain [OF assms(1)] have
      z: "in_domain die_type sides (die_value (rs0 ! i))" "rerolls (rs0 ! i) = []" by auto
    from p [OF i] z show ?thesis by (auto simp: settled_def Some list_all_iff)
  qed
  then show ?thesis by (simp add: list_all_length)
qed

lemma settled_cong:
  "die_value x = die_value y \<Longrightarrow> rerolls x = rerolls y \<Longrightarrow>
     settled die_type sides spec x = settled die_type sides spec y"
  by (cases spec) (simp_all add: settled_def)

lemma explode_stage_settled:
  assumes "explode_stage mods rs1 sides die_type r = Inr (rs2, mods', r')"
    and "list_all (settled dt sd spec) rs1"
  shows "list_all (settled dt sd spec) rs2"
proof (cases "explode mods")
  case None
  with assms show ?thesis by (simp add: explode_stage_def)
next
  case (Some es)
  with assms(1) obtain r'' where
    "explode_all (resolve_max (econdition es) die_type sides) (penetrating es) die_type sides rs1 r
       = Inr (rs2, r'')"
    by (auto simp: explode_stage_def apply_explosions_def Let_def split: sum.splits)
  from explode_all_frame [OF this] have
    l: "length rs1 = length rs2" and
    p: "\<And>i. i < length rs1 \<Longrightarrow> die_value (rs2 ! i) = die_value (rs1 ! i)
           \<and> rerolls (rs2 ! i) = rerolls (rs1 ! i)"
    unfolding list_all2_conv_all_nth by blast+
  have "settled dt sd spec (rs2 ! i)" if "i < length rs2" for i
  proof -
    have i: "i < length rs1" using that l by simp
    with assms(2) have "settled dt sd spec (rs1 ! i)" by (simp add: list_all_length)
    with p [OF i] show ?thesis using settled_cong [of "rs2 ! i" "rs1 ! i"] by simp
  qed
  then show ?thesis by (simp add: list_all_length)
qed

lemma set_sort_rolls: "set (sort_rolls how rs) = set rs"
  by (simp add: sort_rolls_def)

lemma marked_rolls:
  assumes "x \<in> set (fst (count_successes rs cmp kept_values))"
  shows "\<exists>y \<in> set rs. die_value x = die_value y \<and> rerolls x = rerolls y
           \<and> explodes x = explodes y"
proof -
  from assms obtain i y where "(i, y) \<in> set (enumerate 0 rs)" and
    x: "x = y \<or> x = y\<lparr>success := Some (check_condition (die_value y) cmp)\<rparr>"
    by (auto simp: count_successes_def Let_def split: if_splits)
  then have "y \<in> set rs" by (auto simp: in_set_enumerate_eq)
  with x show ?thesis by auto
qed

lemma dice_result_settled:
  assumes "list_all (settled dt sd spec) rolls2"
  shows "list_all (settled dt sd spec)
           (rolls (snd (dice_result cnt sides die_type mods rolls2 kept_values)))"
proof -
  let ?rolls3 = "case sort_mod mods of None \<Rightarrow> rolls2 | Some how \<Rightarrow> sort_rolls how rolls2"
  have s: "set ?rolls3 = set rolls2" by (simp add: set_sort_rolls split: option.splits)
  have "settled dt sd spec x"
    if "x \<in> set (rolls (snd (dice_result cnt sides die_type mods rolls2 kept_values)))" for x
  proof (cases "comparator mods")
    case None
    with that have "x \<in> set ?rolls3"
      by (simp add: dice_result_def Let_def split: option.splits)
    with s assms show ?thesis by (simp add: list_all_iff)
  next
    case (Some cmp)
    with that have "x \<in> set (fst (count_successes ?rolls3 cmp kept_values))"
      by (simp add: dice_result_def Let_def)
    from marked_rolls [OF this] s obtain y where
      "y \<in> set rolls2" "die_value x = die_value y" "rerolls x = rerolls y" by auto
    with assms settled_cong [of x y] show ?thesis by (auto simp: list_all_iff)
  qed
  then show ?thesis by (simp add: list_all_iff)
qed

lemma eval_dice_settled:
  assumes "eval_dice cnt sides die_type mods r = Inr (v, trace, r')"
  shows "list_all (settled die_type sides (reroll mods)) (rolls trace)"
proof -
  from assms obtain rolls0 r1 where
    s0: "roll_all cnt die_type sides r = Inr (rolls0, r1)"
    by (auto simp: eval_dice_def split: sum.splits)
  with assms obtain rolls1 r2 where
    s1: "reroll_stage mods rolls0 sides die_type r1 = Inr (rolls1, r2)"
    by (auto simp: eval_dice_def split: sum.splits)
  with assms s0 obtain rolls2 mods' r3 where
    s2: "explode_stage mods rolls1 sides die_type r2 = Inr (rolls2, mods', r3)"
    by (auto simp: eval_dice_def split: sum.splits)
  with assms s0 s1 obtain kept_values where
    s3: "keep_stage mods' rolls2 = Inr kept_values"
    by (auto simp: eval_dice_def split: sum.splits)
  with assms s0 s1 s2 have
    t: "trace = snd (dice_result cnt sides die_type mods' rolls2 kept_values)"
    by (auto simp: eval_dice_def split: prod.splits)
  from reroll_stage_settled [OF s0 s1] explode_stage_settled [OF s2]
  have "list_all (settled die_type sides (reroll mods)) rolls2" by blast
  from dice_result_settled [OF this] t show ?thesis by simp
qed

text \<open>
  The values that the die source gives to \<open>n\<close> rolls in a row, with the entropy left.
\<close>

fun draws :: "string \<Rightarrow> int \<Rightarrow> nat \<Rightarrow> rng \<Rightarrow> error + (int list \<times> rng)" where
  "draws die_type sides 0 r = Inr ([], r)"
| "draws die_type sides (Suc n) r =
     (case roll_value die_type sides r of
        Inl e \<Rightarrow> Inl e
      | Inr (v, r') \<Rightarrow>
          (case draws die_type sides n r' of
             Inl e \<Rightarrow> Inl e
           | Inr (vs, r'') \<Rightarrow> Inr (v # vs, r'')))"

lemma draws_length: "draws die_type sides n r = Inr (vs, r') \<Longrightarrow> length vs = n"
  by (induction n arbitrary: vs r) (auto split: sum.splits)

lemma draws_append:
  "draws die_type sides m r = Inr (vs, r1) \<Longrightarrow> draws die_type sides n r1 = Inr (ws, r2) \<Longrightarrow>
     draws die_type sides (m + n) r = Inr (vs @ ws, r2)"
  by (induction m arbitrary: vs r) (auto split: sum.splits)

lemma roll_all_draws:
  "roll_all n die_type sides r = Inr (rs, r') \<Longrightarrow>
     draws die_type sides n r = Inr (map die_value rs, r')"
  by (induction n arbitrary: rs r) (auto split: sum.splits simp: DieRoll_def)

lemma reroll_loop_draws:
  assumes "reroll_loop cond onc die_type sides c roll r = Inr (roll', c', r')"
  shows "\<exists>vs. draws die_type sides (length vs) r = Inr (vs, r')
           \<and> rerolls roll' @ [die_value roll'] = rerolls roll @ die_value roll # vs
           \<and> (vs \<noteq> [] \<longleftrightarrow> check_condition (die_value roll) cond \<and> c < MAX_REROLLS)
           \<and> (onc \<longrightarrow> length vs \<le> 1)"
  using assms
proof (induction cond onc die_type sides c roll r arbitrary: roll' c' r'
       rule: reroll_loop.induct)
  case (1 cond onc die_type sides c roll r)
  have eq: "(if check_condition (die_value roll) cond \<and> c < MAX_REROLLS then
        (case roll_value die_type sides r of
           Inl e \<Rightarrow> Inl e
         | Inr (v, r') \<Rightarrow>
             if onc
             then Inr (roll\<lparr>die_value := v, rerolls := rerolls roll @ [die_value roll]\<rparr>,
                       c + 1, r')
             else reroll_loop cond onc die_type sides (c + 1)
                    (roll\<lparr>die_value := v, rerolls := rerolls roll @ [die_value roll]\<rparr>) r')
      else Inr (roll, c, r)) = Inr (roll', c', r')"
    using 1(2) by (simp only: reroll_loop.simps [of cond onc die_type sides c roll r])
  show ?case
  proof (cases "check_condition (die_value roll) cond \<and> c < MAX_REROLLS")
    case False
    with eq have "roll' = roll" "r' = r" by simp_all
    with False have "draws die_type sides (length ([]::int list)) r = Inr ([], r')
           \<and> rerolls roll' @ [die_value roll'] = rerolls roll @ die_value roll # []
           \<and> (([]::int list) \<noteq> [] \<longleftrightarrow> check_condition (die_value roll) cond \<and> c < MAX_REROLLS)
           \<and> (onc \<longrightarrow> length ([]::int list) \<le> 1)"
      by simp
    then show ?thesis by blast
  next
    case True
    from True eq obtain v r1 where
      rv: "roll_value die_type sides r = Inr (v, r1)"
      by (auto split: sum.splits)
    let ?roll1 = "roll\<lparr>die_value := v, rerolls := rerolls roll @ [die_value roll]\<rparr>"
    show ?thesis
    proof (cases onc)
      case onc: True
      with True rv eq have "roll' = ?roll1" "r' = r1" by simp_all
      with True rv have "draws die_type sides (length [v]) r = Inr ([v], r')
           \<and> rerolls roll' @ [die_value roll'] = rerolls roll @ die_value roll # [v]
           \<and> ([v] \<noteq> [] \<longleftrightarrow> check_condition (die_value roll) cond \<and> c < MAX_REROLLS)
           \<and> (onc \<longrightarrow> length [v] \<le> 1)"
        by simp
      then show ?thesis by blast
    next
      case nonc: False
      with True rv eq have
        rec: "reroll_loop cond onc die_type sides (c + 1) ?roll1 r1 = Inr (roll', c', r')"
        by simp
      from 1(1) [OF True rv refl nonc rec] obtain vs where
        d: "draws die_type sides (length vs) r1 = Inr (vs, r')" and
        h: "rerolls roll' @ [die_value roll'] = rerolls ?roll1 @ die_value ?roll1 # vs"
        by blast
      from rv d have "draws die_type sides (length (v # vs)) r = Inr (v # vs, r')" by simp
      moreover from h have
        "rerolls roll' @ [die_value roll'] = rerolls roll @ die_value roll # (v # vs)" by simp
      moreover have "v # vs \<noteq> [] \<longleftrightarrow> check_condition (die_value roll) cond \<and> c < MAX_REROLLS"
        using True by simp
      moreover have "onc \<longrightarrow> length (v # vs) \<le> 1" using nonc by simp
      ultimately show ?thesis by blast
    qed
  qed
qed

lemma reroll_one_draws:
  assumes "reroll_one cond onc die_type sides roll r = Inr (roll', r')"
  shows "\<exists>vs. draws die_type sides (length vs) r = Inr (vs, r')
           \<and> rerolls roll' @ [die_value roll'] = rerolls roll @ die_value roll # vs
           \<and> (vs \<noteq> [] \<longleftrightarrow> check_condition (die_value roll) cond)
           \<and> (onc \<longrightarrow> length vs \<le> 1)"
proof -
  from assms obtain c' where
    l: "reroll_loop cond onc die_type sides 0 roll r = Inr (roll', c', r')"
    by (auto simp: reroll_one_def split: sum.splits if_splits)
  from reroll_loop_draws [OF l] show ?thesis by (simp add: MAX_REROLLS_def)
qed

lemma apply_rerolls_draws:
  assumes "apply_rerolls rs sides die_type spec r = Inr (rs', r')"
  shows "\<exists>vss. length vss = length rs
           \<and> draws die_type sides (length (concat vss)) r = Inr (concat vss, r')
           \<and> map (\<lambda>x. rerolls x @ [die_value x]) rs'
               = map2 (\<lambda>roll vs. rerolls roll @ die_value roll # vs) rs vss
           \<and> list_all2 (\<lambda>roll vs. (vs \<noteq> [] \<longleftrightarrow> check_condition (die_value roll) (rcondition spec))
                           \<and> (once spec \<longrightarrow> length vs \<le> 1))
               rs vss"
  using assms
proof (induction rs arbitrary: r rs')
  case Nil
  then have "length ([]::int list list) = length ([]::die_roll list)
           \<and> draws die_type sides (length (concat ([]::int list list))) r = Inr (concat [], r')
           \<and> map (\<lambda>x. rerolls x @ [die_value x]) rs'
               = map2 (\<lambda>roll vs. rerolls roll @ die_value roll # vs) [] ([]::int list list)
           \<and> list_all2 (\<lambda>roll vs. (vs \<noteq> [] \<longleftrightarrow> check_condition (die_value roll) (rcondition spec))
                           \<and> (once spec \<longrightarrow> length vs \<le> 1))
               [] ([]::int list list)"
    by simp
  then show ?case by blast
next
  case (Cons roll rest)
  from Cons.prems obtain roll' r1 rest' where
    a: "reroll_one (rcondition spec) (once spec) die_type sides roll r = Inr (roll', r1)" and
    b: "apply_rerolls rest sides die_type spec r1 = Inr (rest', r')" and
    c: "rs' = roll' # rest'"
    by (auto split: sum.splits)
  from reroll_one_draws [OF a] obtain vs where
    v: "draws die_type sides (length vs) r = Inr (vs, r1)"
       "rerolls roll' @ [die_value roll'] = rerolls roll @ die_value roll # vs"
       "vs \<noteq> [] \<longleftrightarrow> check_condition (die_value roll) (rcondition spec)"
       "once spec \<longrightarrow> length vs \<le> 1"
    by blast
  from Cons.IH [OF b] obtain vss where
    w: "length vss = length rest"
       "draws die_type sides (length (concat vss)) r1 = Inr (concat vss, r')"
       "map (\<lambda>x. rerolls x @ [die_value x]) rest'
               = map2 (\<lambda>roll vs. rerolls roll @ die_value roll # vs) rest vss"
       "list_all2 (\<lambda>roll vs. (vs \<noteq> [] \<longleftrightarrow> check_condition (die_value roll) (rcondition spec))
                           \<and> (once spec \<longrightarrow> length vs \<le> 1))
               rest vss"
    by blast
  have "length (vs # vss) = length (roll # rest)" using w(1) by simp
  moreover have "draws die_type sides (length (concat (vs # vss))) r = Inr (concat (vs # vss), r')"
    using draws_append [OF v(1) w(2)] by simp
  moreover have "map (\<lambda>x. rerolls x @ [die_value x]) rs'
               = map2 (\<lambda>roll vs. rerolls roll @ die_value roll # vs) (roll # rest) (vs # vss)"
    using c v(2) w(3) by simp
  moreover have "list_all2 (\<lambda>roll vs. (vs \<noteq> [] \<longleftrightarrow> check_condition (die_value roll) (rcondition spec))
                           \<and> (once spec \<longrightarrow> length vs \<le> 1))
               (roll # rest) (vs # vss)"
    using v(3) v(4) w(4) by simp
  ultimately show ?case by blast
qed

text \<open>The values a die has shown, oldest first: its reroll history, then its value.\<close>

definition shown :: "die_roll \<Rightarrow> int list" where
  "shown x = rerolls x @ [die_value x]"

lemma map_shown: "map shown xs = map (\<lambda>x. rerolls x @ [die_value x]) xs"
  by (simp add: shown_def)

lemma shown_fresh:
  "\<forall>x \<in> set xs. rerolls x = [] \<Longrightarrow>
     map2 (\<lambda>roll vs. rerolls roll @ die_value roll # vs) xs ys = map2 (#) (map die_value xs) ys"
proof (induction xs arbitrary: ys)
  case Nil
  then show ?case by simp
next
  case (Cons x xs)
  then show ?case by (cases ys) simp_all
qed

lemma shown_no_rerolls:
  "\<forall>x \<in> set xs. rerolls x = [] \<Longrightarrow>
     map shown xs = map2 (#) (map die_value xs) (replicate (length xs) [])"
  by (induction xs) (simp_all add: shown_def)

lemma reroll_stage_draws:
  assumes "roll_all cnt die_type sides r = Inr (rs0, r1)"
    and "reroll_stage mods rs0 sides die_type r1 = Inr (rs1, r2)"
  shows "\<exists>vss. length vss = cnt
           \<and> draws die_type sides (length (concat vss)) r1 = Inr (concat vss, r2)
           \<and> map shown rs1 = map2 (#) (map die_value rs0) vss
           \<and> (reroll mods = None \<longrightarrow> concat vss = [])
           \<and> (\<forall>s. reroll mods = Some s \<longrightarrow>
                 list_all2 (\<lambda>v0 vs. (vs \<noteq> [] \<longleftrightarrow> check_condition v0 (rcondition s))
                              \<and> (once s \<longrightarrow> length vs \<le> 1))
                   (map die_value rs0) vss)"
proof -
  from roll_all_domain [OF assms(1)] have
    len: "length rs0 = cnt" and fresh: "\<forall>x \<in> set rs0. rerolls x = []" by auto
  show ?thesis
  proof (cases "reroll mods")
    case None
    with assms(2) have e: "rs1 = rs0" "r2 = r1" by (simp_all add: reroll_stage_def)
    let ?vss = "replicate cnt ([]::int list)"
    have a: "draws die_type sides (length (concat ?vss)) r1 = Inr (concat ?vss, r2)"
      using e by simp
    have b: "map shown rs1 = map2 (#) (map die_value rs0) ?vss"
      using shown_no_rerolls [OF fresh] e len by simp
    have "length ?vss = cnt
           \<and> draws die_type sides (length (concat ?vss)) r1 = Inr (concat ?vss, r2)
           \<and> map shown rs1 = map2 (#) (map die_value rs0) ?vss
           \<and> (reroll mods = None \<longrightarrow> concat ?vss = [])
           \<and> (\<forall>s. reroll mods = Some s \<longrightarrow>
                 list_all2 (\<lambda>v0 vs. (vs \<noteq> [] \<longleftrightarrow> check_condition v0 (rcondition s))
                              \<and> (once s \<longrightarrow> length vs \<le> 1))
                   (map die_value rs0) ?vss)"
      using a b None by simp
    then show ?thesis by (rule exI [of _ ?vss])
  next
    case (Some spec)
    with assms(2) have "apply_rerolls rs0 sides die_type spec r1 = Inr (rs1, r2)"
      by (simp add: reroll_stage_def)
    from apply_rerolls_draws [OF this] obtain vss where
      w: "length vss = length rs0"
         "draws die_type sides (length (concat vss)) r1 = Inr (concat vss, r2)"
         "map (\<lambda>x. rerolls x @ [die_value x]) rs1
               = map2 (\<lambda>roll vs. rerolls roll @ die_value roll # vs) rs0 vss"
         "list_all2 (\<lambda>roll vs. (vs \<noteq> [] \<longleftrightarrow> check_condition (die_value roll) (rcondition spec))
                           \<and> (once spec \<longrightarrow> length vs \<le> 1))
               rs0 vss"
      by blast
    have a: "length vss = cnt" using w(1) len by simp
    have b: "map shown rs1 = map2 (#) (map die_value rs0) vss"
      using w(3) shown_fresh [OF fresh, of vss] by (simp add: map_shown)
    have c: "list_all2 (\<lambda>v0 vs. (vs \<noteq> [] \<longleftrightarrow> check_condition v0 (rcondition spec))
                              \<and> (once spec \<longrightarrow> length vs \<le> 1))
                   (map die_value rs0) vss"
      using w(4) by (simp add: list_all2_map1)
    have "length vss = cnt
           \<and> draws die_type sides (length (concat vss)) r1 = Inr (concat vss, r2)
           \<and> map shown rs1 = map2 (#) (map die_value rs0) vss
           \<and> (reroll mods = None \<longrightarrow> concat vss = [])
           \<and> (\<forall>s. reroll mods = Some s \<longrightarrow>
                 list_all2 (\<lambda>v0 vs. (vs \<noteq> [] \<longleftrightarrow> check_condition v0 (rcondition s))
                              \<and> (once s \<longrightarrow> length vs \<le> 1))
                   (map die_value rs0) vss)"
      using a b c w(2) Some by simp
    then show ?thesis by (rule exI [of _ vss])
  qed
qed

lemma frame_shown:
  "list_all2 (\<lambda>roll roll'. die_value roll' = die_value roll
            \<and> rerolls roll' = rerolls roll \<and> success roll' = success roll) rs rs' \<Longrightarrow>
     map shown rs' = map shown rs"
  by (induction rule: list_all2_induct) (simp_all add: shown_def)

lemma explode_stage_shown:
  assumes "explode_stage mods rs1 sides die_type r = Inr (rs2, mods', r')"
  shows "map shown rs2 = map shown rs1 \<and> sort_mod mods' = sort_mod mods"
proof (cases "explode mods")
  case None
  with assms show ?thesis by (simp add: explode_stage_def)
next
  case (Some es)
  with assms obtain r'' where
    a: "explode_all (resolve_max (econdition es) die_type sides) (penetrating es) die_type sides rs1 r
       = Inr (rs2, r'')"
    by (auto simp: explode_stage_def apply_explosions_def Let_def split: sum.splits)
  from assms Some have "sort_mod mods' = sort_mod mods"
    by (auto simp: explode_stage_def split: sum.splits)
  with frame_shown [OF explode_all_frame [OF a]] show ?thesis by simp
qed

lemma count_successes_shown:
  "map shown (fst (count_successes rs cmp kept_values)) = map shown rs"
proof -
  have "map shown (fst (count_successes rs cmp kept_values))
          = map (shown \<circ> snd) (enumerate 0 rs)"
    by (auto simp: count_successes_def Let_def shown_def)
  also have "\<dots> = map shown rs" by (simp add: map_snd_enumerate flip: map_map)
  finally show ?thesis .
qed

lemma dice_result_shown:
  "mset (map shown (rolls (snd (dice_result cnt sides die_type mods rolls2 kept_values))))
     = mset (map shown rolls2)
   \<and> (sort_mod mods = None \<longrightarrow>
        map shown (rolls (snd (dice_result cnt sides die_type mods rolls2 kept_values)))
          = map shown rolls2)"
proof -
  let ?rolls3 = "case sort_mod mods of None \<Rightarrow> rolls2 | Some how \<Rightarrow> sort_rolls how rolls2"
  have m: "mset ?rolls3 = mset rolls2"
    by (simp add: sort_rolls_def split: option.splits)
  have s: "mset (map shown ?rolls3) = mset (map shown rolls2)"
    using m by (metis mset_map)
  have n: "sort_mod mods = None \<longrightarrow> ?rolls3 = rolls2" by simp
  have e: "map shown (rolls (snd (dice_result cnt sides die_type mods rolls2 kept_values)))
             = map shown ?rolls3"
  proof (cases "comparator mods")
    case None
    then show ?thesis by (simp add: dice_result_def Let_def split: option.splits)
  next
    case (Some cmp)
    then show ?thesis by (simp add: dice_result_def Let_def count_successes_shown)
  qed
  from s n e show ?thesis by auto
qed

lemma eval_dice_shown:
  assumes "eval_dice cnt sides die_type mods r = Inr (v, trace, r')"
  shows "\<exists>firsts vss r1 r2.
           draws die_type sides cnt r = Inr (firsts, r1)
         \<and> length vss = cnt
         \<and> draws die_type sides (length (concat vss)) r1 = Inr (concat vss, r2)
         \<and> mset (map shown (rolls trace)) = mset (map2 (#) firsts vss)
         \<and> (sort_mod mods = None \<longrightarrow> map shown (rolls trace) = map2 (#) firsts vss)
         \<and> (reroll mods = None \<longrightarrow> concat vss = [])
         \<and> (\<forall>s. reroll mods = Some s \<longrightarrow>
               list_all2 (\<lambda>v0 vs. (vs \<noteq> [] \<longleftrightarrow> check_condition v0 (rcondition s))
                              \<and> (once s \<longrightarrow> length vs \<le> 1)) firsts vss)"
proof -
  from assms obtain rolls0 r1 where
    s0: "roll_all cnt die_type sides r = Inr (rolls0, r1)"
    by (auto simp: eval_dice_def split: sum.splits)
  with assms obtain rolls1 r2 where
    s1: "reroll_stage mods rolls0 sides die_type r1 = Inr (rolls1, r2)"
    by (auto simp: eval_dice_def split: sum.splits)
  with assms s0 obtain rolls2 mods' r3 where
    s2: "explode_stage mods rolls1 sides die_type r2 = Inr (rolls2, mods', r3)"
    by (auto simp: eval_dice_def split: sum.splits)
  with assms s0 s1 obtain kept_values where
    s3: "keep_stage mods' rolls2 = Inr kept_values"
    by (auto simp: eval_dice_def split: sum.splits)
  with assms s0 s1 s2 have
    t: "trace = snd (dice_result cnt sides die_type mods' rolls2 kept_values)"
    by (auto simp: eval_dice_def split: prod.splits)
  from reroll_stage_draws [OF s0 s1] obtain vss where
    w0: "length vss = cnt
           \<and> draws die_type sides (length (concat vss)) r1 = Inr (concat vss, r2)
           \<and> map shown rolls1 = map2 (#) (map die_value rolls0) vss
           \<and> (reroll mods = None \<longrightarrow> concat vss = [])
           \<and> (\<forall>s. reroll mods = Some s \<longrightarrow>
                 list_all2 (\<lambda>v0 vs. (vs \<noteq> [] \<longleftrightarrow> check_condition v0 (rcondition s))
                              \<and> (once s \<longrightarrow> length vs \<le> 1))
                   (map die_value rolls0) vss)" ..
  note w = w0 [THEN conjunct1] w0 [THEN conjunct2, THEN conjunct1]
    w0 [THEN conjunct2, THEN conjunct2, THEN conjunct1]
    w0 [THEN conjunct2, THEN conjunct2, THEN conjunct2, THEN conjunct1]
    w0 [THEN conjunct2, THEN conjunct2, THEN conjunct2, THEN conjunct2]
  note x = explode_stage_shown [OF s2]
  note d = dice_result_shown [of cnt sides die_type mods' rolls2 kept_values]
  have m2: "map shown rolls2 = map2 (#) (map die_value rolls0) vss"
    using x w(3) by (simp only:)
  have sm: "sort_mod mods' = sort_mod mods" using x by (rule conjunct2)
  have a: "mset (map shown (rolls trace)) = mset (map2 (#) (map die_value rolls0) vss)"
    using d [THEN conjunct1] by (simp only: t m2)
  have b: "sort_mod mods = None \<longrightarrow>
      map shown (rolls trace) = map2 (#) (map die_value rolls0) vss"
    using d [THEN conjunct2] by (simp only: t m2 sm)
  show ?thesis
  proof (intro exI conjI)
    show "draws die_type sides cnt r = Inr (map die_value rolls0, r1)"
      by (rule roll_all_draws [OF s0])
    show "length vss = cnt" by (rule w(1))
    show "draws die_type sides (length (concat vss)) r1 = Inr (concat vss, r2)" by (rule w(2))
    show "mset (map shown (rolls trace)) = mset (map2 (#) (map die_value rolls0) vss)"
      by (rule a)
    show "sort_mod mods = None \<longrightarrow>
      map shown (rolls trace) = map2 (#) (map die_value rolls0) vss" by (rule b)
    show "reroll mods = None \<longrightarrow> concat vss = []" by (rule w(4))
    show "\<forall>s. reroll mods = Some s \<longrightarrow>
                 list_all2 (\<lambda>v0 vs. (vs \<noteq> [] \<longleftrightarrow> check_condition v0 (rcondition s))
                              \<and> (once s \<longrightarrow> length vs \<le> 1))
                   (map die_value rolls0) vss" by (rule w(5))
  qed
qed

text \<open>
  Claim C8. When a dice term evaluates without error, every die of its trace has its
  \<open>die_value\<close> in the die's domain: \<open>{-1, 0, 1}\<close> for a FATE die, \<open>[1, sides]\<close>
  otherwise. The values that rerolls superseded are in the history \<open>rerolls\<close>: without
  a reroll modifier the history is empty; with one, every value in the history satisfied
  the reroll condition, reroll-once leaves at most one of them, and under the standard
  reroll the die's value does not satisfy the condition, so that it is none of the values
  in the history. In both modes the history followed by the value is the sequence of the
  values drawn for that die, oldest first: the \<open>cnt\<close> first rolls \<open>firsts\<close> come
  from the entropy at the start, the rerolls \<open>vss\<close> of the dice follow them in the
  entropy die after die, a die is rerolled exactly when its first roll satisfies the
  condition, and \<open>die_value\<close> is the last value drawn for it while the earlier ones
  are its history. A sort modifier only permutes the dice.
\<close>

theorem die_values_in_domain:
  assumes "eval_dice cnt sides die_type mods r = Inr (v, trace, r')"
  shows "(\<forall>x \<in> set (rolls trace).
           (if die_type = ''dF'' then die_value x \<in> {- 1, 0, 1}
            else 1 \<le> die_value x \<and> die_value x \<le> sides)
         \<and> (reroll mods = None \<longrightarrow> rerolls x = [])
         \<and> (\<forall>s. reroll mods = Some s \<longrightarrow>
               (\<forall>w \<in> set (rerolls x). check_condition w (rcondition s))
               \<and> (once s \<longrightarrow> length (rerolls x) \<le> 1)
               \<and> (\<not> once s \<longrightarrow> \<not> check_condition (die_value x) (rcondition s)
                                 \<and> die_value x \<notin> set (rerolls x))))
     \<and> (\<exists>firsts vss r1 r2.
           draws die_type sides cnt r = Inr (firsts, r1)
         \<and> length vss = cnt
         \<and> draws die_type sides (length (concat vss)) r1 = Inr (concat vss, r2)
         \<and> mset (map (\<lambda>x. rerolls x @ [die_value x]) (rolls trace)) = mset (map2 (#) firsts vss)
         \<and> (sort_mod mods = None \<longrightarrow>
               map (\<lambda>x. rerolls x @ [die_value x]) (rolls trace) = map2 (#) firsts vss)
         \<and> (reroll mods = None \<longrightarrow> concat vss = [])
         \<and> (\<forall>s. reroll mods = Some s \<longrightarrow>
               list_all2 (\<lambda>v0 vs. (vs \<noteq> [] \<longleftrightarrow> check_condition v0 (rcondition s))
                              \<and> (once s \<longrightarrow> length vs \<le> 1)) firsts vss))"
proof (rule conjI)
  show "\<forall>x \<in> set (rolls trace).
           (if die_type = ''dF'' then die_value x \<in> {- 1, 0, 1}
            else 1 \<le> die_value x \<and> die_value x \<le> sides)
         \<and> (reroll mods = None \<longrightarrow> rerolls x = [])
         \<and> (\<forall>s. reroll mods = Some s \<longrightarrow>
               (\<forall>w \<in> set (rerolls x). check_condition w (rcondition s))
               \<and> (once s \<longrightarrow> length (rerolls x) \<le> 1)
               \<and> (\<not> once s \<longrightarrow> \<not> check_condition (die_value x) (rcondition s)
                                 \<and> die_value x \<notin> set (rerolls x)))"
  proof
    fix x
    assume "x \<in> set (rolls trace)"
    with eval_dice_settled [OF assms] have s: "settled die_type sides (reroll mods) x"
      by (simp add: list_all_iff)
    show "(if die_type = ''dF'' then die_value x \<in> {- 1, 0, 1}
            else 1 \<le> die_value x \<and> die_value x \<le> sides)
         \<and> (reroll mods = None \<longrightarrow> rerolls x = [])
         \<and> (\<forall>s. reroll mods = Some s \<longrightarrow>
               (\<forall>w \<in> set (rerolls x). check_condition w (rcondition s))
               \<and> (once s \<longrightarrow> length (rerolls x) \<le> 1)
               \<and> (\<not> once s \<longrightarrow> \<not> check_condition (die_value x) (rcondition s)
                                 \<and> die_value x \<notin> set (rerolls x)))"
    proof (cases "reroll mods")
      case None
      with s show ?thesis by (auto simp: settled_def in_domain_def split: if_splits)
    next
      case (Some s0)
      with s show ?thesis by (auto simp: settled_def in_domain_def list_all_iff split: if_splits)
    qed
  qed
  show "\<exists>firsts vss r1 r2.
           draws die_type sides cnt r = Inr (firsts, r1)
         \<and> length vss = cnt
         \<and> draws die_type sides (length (concat vss)) r1 = Inr (concat vss, r2)
         \<and> mset (map (\<lambda>x. rerolls x @ [die_value x]) (rolls trace)) = mset (map2 (#) firsts vss)
         \<and> (sort_mod mods = None \<longrightarrow>
               map (\<lambda>x. rerolls x @ [die_value x]) (rolls trace) = map2 (#) firsts vss)
         \<and> (reroll mods = None \<longrightarrow> concat vss = [])
         \<and> (\<forall>s. reroll mods = Some s \<longrightarrow>
               list_all2 (\<lambda>v0 vs. (vs \<noteq> [] \<longleftrightarrow> check_condition v0 (rcondition s))
                              \<and> (once s \<longrightarrow> length vs \<le> 1)) firsts vss)"
    using eval_dice_shown [OF assms] by (simp only: map_shown)
qed

definition rising_entropy :: "nat \<Rightarrow> byte" where
  "rising_entropy i = (if i = 0 then 0 else 1)"

theorem die_values_in_domain_witness:
  "eval_dice 1 2 ''d''
     \<lparr>reroll = Some \<lparr>once = False, rcondition = Condition ''='' 1\<rparr>, explode = None,
      keep = None, sort_mod = None, comparator = None\<rparr>
     \<lparr>entropy = rising_entropy, consumed = 0\<rparr>
   = Inr (2,
          \<lparr>term_str = ''1d2r1'',
           rolls = [\<lparr>die_value = 2, rerolls = [1], explodes = [], success = None\<rparr>],
           keptValues = None, sum_opt = Some 2, threshold = None, successes = None\<rparr>,
          \<lparr>entropy = rising_entropy, consumed = 2\<rparr>)
   \<and> \<not> check_condition 2 (Condition ''='' 1) \<and> (2::int) \<notin> set [1]
   \<and> draws ''d'' 2 1 \<lparr>entropy = rising_entropy, consumed = 0\<rparr>
       = Inr ([1], \<lparr>entropy = rising_entropy, consumed = 1\<rparr>)
   \<and> draws ''d'' 2 1 \<lparr>entropy = rising_entropy, consumed = 1\<rparr>
       = Inr ([2], \<lparr>entropy = rising_entropy, consumed = 2\<rparr>)
   \<and> eval_dice 1 2 ''d''
     \<lparr>reroll = Some \<lparr>once = True, rcondition = Condition ''='' 1\<rparr>, explode = None,
      keep = None, sort_mod = None, comparator = None\<rparr>
     \<lparr>entropy = rising_entropy, consumed = 0\<rparr>
   = Inr (2,
          \<lparr>term_str = ''1d2ro1'',
           rolls = [\<lparr>die_value = 2, rerolls = [1], explodes = [], success = None\<rparr>],
           keptValues = None, sum_opt = Some 2, threshold = None, successes = None\<rparr>,
          \<lparr>entropy = rising_entropy, consumed = 2\<rparr>)"
proof -
  let ?mods = "\<lparr>reroll = Some \<lparr>once = False, rcondition = Condition ''='' 1\<rparr>, explode = None,
      keep = None, sort_mod = None, comparator = None\<rparr>"
  let ?modso = "\<lparr>reroll = Some \<lparr>once = True, rcondition = Condition ''='' 1\<rparr>, explode = None,
      keep = None, sort_mod = None, comparator = None\<rparr>"
  let ?d = "\<lparr>die_value = 2, rerolls = [1], explodes = [], success = None\<rparr>"
  let ?t = "\<lparr>term_str = ''1d2r1'', rolls = [?d],
           keptValues = None, sum_opt = Some 2, threshold = None, successes = None\<rparr>"
  let ?to = "\<lparr>term_str = ''1d2ro1'', rolls = [?d],
           keptValues = None, sum_opt = Some 2, threshold = None, successes = None\<rparr>"
  have l: "reroll_loop (Condition ''='' 1) False ''d'' 2 0
             \<lparr>die_value = 1, rerolls = [], explodes = [], success = None\<rparr>
             \<lparr>entropy = rising_entropy, consumed = Suc 0\<rparr>
           = Inr (?d, 1, \<lparr>entropy = rising_entropy, consumed = 2\<rparr>)"
    by (simp add: reroll_loop.simps [of _ _ _ _ 0] reroll_loop.simps [of _ _ _ _ "Suc 0"]
          roll_value_def roll_die_2 rising_entropy_def check_condition_def MAX_REROLLS_def)
  have lo: "reroll_loop (Condition ''='' 1) True ''d'' 2 0
             \<lparr>die_value = 1, rerolls = [], explodes = [], success = None\<rparr>
             \<lparr>entropy = rising_entropy, consumed = Suc 0\<rparr>
           = Inr (?d, 1, \<lparr>entropy = rising_entropy, consumed = 2\<rparr>)"
    by (simp add: reroll_loop.simps [of _ _ _ _ 0]
          roll_value_def roll_die_2 rising_entropy_def check_condition_def MAX_REROLLS_def)
  have s: "str_nat (Suc 0) = ''1''" "str_nat 2 = ''2''"
    by (simp_all add: str_nat.simps [of "Suc 0"] str_nat.simps [of 2] digit_char_def)
  have e: "eval_dice 1 2 ''d'' ?mods \<lparr>entropy = rising_entropy, consumed = 0\<rparr>
             = Inr (2, ?t, \<lparr>entropy = rising_entropy, consumed = 2\<rparr>)"
    by (simp add: eval_dice_def reroll_stage_def explode_stage_def keep_stage_def
          dice_result_def roll_value_def roll_die_2 rising_entropy_def DieRoll_def
          reroll_one_def l MAX_REROLLS_def term_string_def format_condition_def
          str_value_def str_int_def s)
  have eo: "eval_dice 1 2 ''d'' ?modso \<lparr>entropy = rising_entropy, consumed = 0\<rparr>
             = Inr (2, ?to, \<lparr>entropy = rising_entropy, consumed = 2\<rparr>)"
    by (simp add: eval_dice_def reroll_stage_def explode_stage_def keep_stage_def
          dice_result_def roll_value_def roll_die_2 rising_entropy_def DieRoll_def
          reroll_one_def lo MAX_REROLLS_def term_string_def format_condition_def
          str_value_def str_int_def s)
  have d1: "draws ''d'' 2 1 \<lparr>entropy = rising_entropy, consumed = 0\<rparr>
       = Inr ([1], \<lparr>entropy = rising_entropy, consumed = 1\<rparr>)"
    by (simp add: roll_value_def roll_die_2 rising_entropy_def)
  have d2: "draws ''d'' 2 1 \<lparr>entropy = rising_entropy, consumed = 1\<rparr>
       = Inr ([2], \<lparr>entropy = rising_entropy, consumed = 2\<rparr>)"
    by (simp add: roll_value_def roll_die_2 rising_entropy_def)
  from die_values_in_domain [OF e, THEN conjunct1] have
    "\<not> check_condition 2 (Condition ''='' 1) \<and> (2::int) \<notin> set [1]" by simp
  with e eo d1 d2 show ?thesis by simp
qed


section \<open>The parser consumes tokens and reports errors at tokens\<close>

text \<open>
  \<open>advanced t t'\<close>: \<open>t'\<close> is \<open>t\<close> after more tokens were consumed. \<open>error_at t e\<close>:
  a \<open>ParseError\<close> carries the tokenizer's text and the offset of one of its tokens, or
  the length of the text.
\<close>

definition advanced :: "tokenizer \<Rightarrow> tokenizer \<Rightarrow> bool" where
  "advanced t t' =
     (tokens t' = tokens t \<and> ttext t' = ttext t \<and> position t \<le> position t')"

definition error_at :: "tokenizer \<Rightarrow> error \<Rightarrow> bool" where
  "error_at t e =
     (case e of
        ParseError msg pos inp \<Rightarrow>
          inp = ttext t \<and> (pos = length (ttext t) \<or> pos \<in> tok_pos ` set (tokens t))
      | _ \<Rightarrow> True)"

definition ok_result :: "tokenizer \<Rightarrow> error + ('a \<times> tokenizer) \<Rightarrow> bool" where
  "ok_result t res = (case res of Inl e \<Rightarrow> error_at t e | Inr (a, t') \<Rightarrow> advanced t t')"

lemma advanced_refl [simp]: "advanced t t"
  by (simp add: advanced_def)

lemma advanced_trans: "advanced t t1 \<Longrightarrow> advanced t1 t2 \<Longrightarrow> advanced t t2"
  by (simp add: advanced_def)

lemma error_at_advanced: "advanced t t1 \<Longrightarrow> error_at t1 e \<Longrightarrow> error_at t e"
  by (cases e) (simp_all add: advanced_def error_at_def)

lemma ok_result_advanced: "advanced t t1 \<Longrightarrow> ok_result t1 res \<Longrightarrow> ok_result t res"
  by (cases res) (auto simp: ok_result_def intro: error_at_advanced advanced_trans)

lemma ok_result_Inl [simp]: "ok_result t (Inl e) = error_at t e"
  by (simp add: ok_result_def)

lemma ok_result_Inr [simp]: "ok_result t (Inr (a, t')) = advanced t t'"
  by (simp add: ok_result_def)

lemma error_at_simps [simp]:
  "error_at t (SemanticError m)" "error_at t (LimitError m)" "error_at t (DiceError m)"
  "error_at t (OtherError c m)"
  "error_at t (ParseError m (length (ttext t)) (ttext t))"
  by (simp_all add: error_at_def)

lemma error_at_token:
  "i < length (tokens t) \<Longrightarrow> error_at t (ParseError m (pos_at t i) (ttext t))"
  by (simp add: error_at_def pos_at_def)

lemma consume_ok: "ok_result t (consume expected t)"
  by (auto simp: consume_def Let_def advanced_def error_at_def split: option.splits)

lemma consume_Inr:
  "consume expected t = Inr (x, t') \<Longrightarrow> advanced t t' \<and> position t' = Suc (position t)
     \<and> position t < length (tokens t)"
  using consume_advances [of expected t x t'] by (simp add: advanced_def)

lemma consume_Inl: "consume expected t = Inl e \<Longrightarrow> error_at t e"
  using consume_ok [of t expected] by simp

lemma int_token_Inl: "int_token s = Inl e \<Longrightarrow> error_at t e"
  by (auto simp: int_token_def split: option.splits)

lemma ok_bind:
  assumes "ok_result t m"
    and "\<And>a t1. m = Inr (a, t1) \<Longrightarrow> ok_result t1 (f a t1)"
  shows "ok_result t (case m of Inl e \<Rightarrow> Inl e | Inr (a, t1) \<Rightarrow> f a t1)"
proof (cases m)
  case (Inl e)
  with assms(1) show ?thesis by simp
next
  case (Inr x)
  obtain a t1 where x: "x = (a, t1)" by (cases x)
  with Inr assms(1) have "advanced t t1" by simp
  moreover have "ok_result t1 (f a t1)" using assms(2) Inr x by simp
  ultimately have "ok_result t (f a t1)" by (rule ok_result_advanced)
  with Inr x show ?thesis by simp
qed

lemma ok_int_token:
  assumes "advanced t t1"
  shows "ok_result t (case int_token s of Inl e \<Rightarrow> Inl e | Inr v \<Rightarrow> Inr (f v, t1))"
proof (cases "int_token s")
  case (Inl e)
  then show ?thesis by (simp add: int_token_Inl)
next
  case (Inr v)
  with assms show ?thesis by simp
qed

lemma expect_number_ok: "ok_result t (expect_number msg t)"
proof (cases "at_end t \<or> \<not> next_isdigit t")
  case True
  show ?thesis
  proof (cases "at_end t")
    case e: True
    then show ?thesis by (simp add: expect_number_def)
  next
    case e: False
    then have "position t < length (tokens t)" by (simp add: at_end_def)
    then have "error_at t (ParseError msg (pos_at t (position t)) (ttext t))"
      by (rule error_at_token)
    with True e show ?thesis by (simp add: expect_number_def)
  qed
next
  case False
  have "ok_result t (case consume None t of
           Inl e \<Rightarrow> Inl e
         | Inr (num, t') \<Rightarrow>
             (case int_token num of Inl e \<Rightarrow> Inl e | Inr v \<Rightarrow> Inr (v, t')))"
    by (rule ok_bind [OF consume_ok]) (rule ok_int_token, simp)
  with False show ?thesis by (simp add: expect_number_def)
qed

lemma parse_condition_ok: "ok_result t (parse_condition default_op default_value of_number t)"
proof -
  have a: "ok_result t (case consume None t of
               Inl e \<Rightarrow> Inl e
             | Inr (opr, t1) \<Rightarrow>
                 (case expect_number (''Expected number after operator '' @ quoted opr) t1 of
                    Inl e \<Rightarrow> Inl e
                  | Inr (v, t2) \<Rightarrow> Inr (Condition opr (of_number v), t2)))"
    by (rule ok_bind [OF consume_ok], rule ok_bind [OF expect_number_ok]) simp
  have b: "ok_result t (case consume None t of
               Inl e \<Rightarrow> Inl e
             | Inr (num, t1) \<Rightarrow>
                 (case int_token num of
                    Inl e \<Rightarrow> Inl e
                  | Inr v \<Rightarrow> Inr (Condition ''='' (of_number v), t1)))"
    by (rule ok_bind [OF consume_ok]) (rule ok_int_token, simp)
  show ?thesis
  proof (cases "peek 0 t")
    case None
    then show ?thesis by (simp add: parse_condition_def)
  next
    case (Some tok)
    with a b show ?thesis by (simp add: parse_condition_def)
  qed
qed

lemma modifiers_loop_ok: "ok_result t (modifiers_loop mods t)"
proof (induction mods t rule: modifiers_loop.induct)
  case (1 mods t)
  note unf = modifiers_loop.simps [of mods t]
  show ?case
  proof (cases "at_end t")
    case True
    then show ?thesis by (simp add: unf)
  next
    case ne: False
    show ?thesis
    proof (cases "peek 0 t")
      case None
      with ne show ?thesis by (simp add: unf)
    next
      case (Some tok)
      consider (empty) "tok = []"
        | (r) "tok \<noteq> []" "lower tok \<in> set [''r'', ''ro'']"
        | (e) "tok \<noteq> []" "lower tok \<notin> set [''r'', ''ro'']"
              "lower tok \<in> set [''!'', ''!!'', ''!p'']"
        | (k) "tok \<noteq> []" "lower tok \<notin> set [''r'', ''ro'']"
              "lower tok \<notin> set [''!'', ''!!'', ''!p'']"
              "lower tok \<in> set [''kh'', ''kl'', ''dh'', ''dl'']"
        | (s) "tok \<noteq> []" "lower tok \<notin> set [''r'', ''ro'']"
              "lower tok \<notin> set [''!'', ''!!'', ''!p'']"
              "lower tok \<notin> set [''kh'', ''kl'', ''dh'', ''dl'']"
              "lower tok \<in> set [''sa'', ''sd'']"
        | (c) "tok \<noteq> []" "lower tok \<notin> set [''r'', ''ro'']"
              "lower tok \<notin> set [''!'', ''!!'', ''!p'']"
              "lower tok \<notin> set [''kh'', ''kl'', ''dh'', ''dl'']"
              "lower tok \<notin> set [''sa'', ''sd'']"
              "lower tok \<in> set [''>='', ''<='', ''='', ''>'', ''<'']"
        | (other) "tok \<noteq> []" "lower tok \<notin> set [''r'', ''ro'']"
              "lower tok \<notin> set [''!'', ''!!'', ''!p'']"
              "lower tok \<notin> set [''kh'', ''kl'', ''dh'', ''dl'']"
              "lower tok \<notin> set [''sa'', ''sd'']"
              "lower tok \<notin> set [''>='', ''<='', ''='', ''>'', ''<'']"
        by blast
      then show ?thesis
      proof cases
        case empty
        with ne Some show ?thesis by (simp add: unf)
      next
        case r
        have "ok_result t (case consume None t of
               Inl e \<Rightarrow> Inl e
             | Inr (x, t1) \<Rightarrow>
                 (case parse_condition ''='' 1 (\<lambda>v. v) t1 of
                    Inl e \<Rightarrow> Inl e
                  | Inr (c, t2) \<Rightarrow>
                      modifiers_loop
                        (mods\<lparr>reroll := Some \<lparr>once = (lower tok = ''ro''), rcondition = c\<rparr>\<rparr>)
                        t2))"
        proof (rule ok_bind [OF consume_ok], rule ok_bind [OF parse_condition_ok])
          fix x t1 c t2
          assume a: "consume None t = Inr (x, t1)"
            and b: "parse_condition ''='' 1 (\<lambda>v. v) t1 = Inr (c, t2)"
          show "ok_result t2 (modifiers_loop
                  (mods\<lparr>reroll := Some \<lparr>once = (lower tok = ''ro''), rcondition = c\<rparr>\<rparr>) t2)"
            by (rule 1(1) [OF ne Some r(1) r(2) a refl b refl])
        qed
        with ne Some r show ?thesis by (simp add: unf)
      next
        case e
        have "ok_result t (case consume None t of
               Inl e \<Rightarrow> Inl e
             | Inr (explode_token, t1) \<Rightarrow>
                 (case parse_condition ''>='' CMax CInt t1 of
                    Inl e \<Rightarrow> Inl e
                  | Inr (c, t2) \<Rightarrow>
                      modifiers_loop
                        (mods\<lparr>explode := Some
                           \<lparr>penetrating = (CHR ''p'' \<in> set (lower explode_token)),
                            compound = (length explode_token = 2 \<and> explode_token = ''!!''),
                            econdition = c\<rparr>\<rparr>)
                        t2))"
        proof (rule ok_bind [OF consume_ok], rule ok_bind [OF parse_condition_ok])
          fix x t1 c t2
          assume a: "consume None t = Inr (x, t1)"
            and b: "parse_condition ''>='' CMax CInt t1 = Inr (c, t2)"
          show "ok_result t2 (modifiers_loop
                  (mods\<lparr>explode := Some
                           \<lparr>penetrating = (CHR ''p'' \<in> set (lower x)),
                            compound = (length x = 2 \<and> x = ''!!''),
                            econdition = c\<rparr>\<rparr>) t2)"
            by (rule 1(2) [OF ne Some e(1) e(2) e(3) a refl b refl])
        qed
        with ne Some e show ?thesis by (simp add: unf)
      next
        case k
        have "ok_result t (case consume None t of
               Inl e \<Rightarrow> Inl e
             | Inr (x, t1) \<Rightarrow>
                 (case expect_number (''Expected number after '' @ quoted (lower x)) t1 of
                    Inl e \<Rightarrow> Inl e
                  | Inr (number, t2) \<Rightarrow>
                      modifiers_loop
                        (mods\<lparr>keep := Some \<lparr>ktype = lower x, kcount = nat number\<rparr>\<rparr>) t2))"
        proof (rule ok_bind [OF consume_ok], rule ok_bind [OF expect_number_ok])
          fix x t1 n t2
          assume a: "consume None t = Inr (x, t1)"
            and b: "expect_number (''Expected number after '' @ quoted (lower x)) t1 = Inr (n, t2)"
          show "ok_result t2 (modifiers_loop
                  (mods\<lparr>keep := Some \<lparr>ktype = lower x, kcount = nat n\<rparr>\<rparr>) t2)"
            by (rule 1(3) [OF ne Some k(1) k(2) k(3) k(4) a refl b refl])
        qed
        with ne Some k show ?thesis by (simp add: unf)
      next
        case s
        have "ok_result t (case consume None t of
               Inl e \<Rightarrow> Inl e
             | Inr (x, t1) \<Rightarrow> modifiers_loop (mods\<lparr>sort_mod := Some (lower x)\<rparr>) t1)"
        proof (rule ok_bind [OF consume_ok])
          fix x t1
          assume a: "consume None t = Inr (x, t1)"
          show "ok_result t1 (modifiers_loop (mods\<lparr>sort_mod := Some (lower x)\<rparr>) t1)"
            by (rule 1(4) [OF ne Some s(1) s(2) s(3) s(4) s(5) a refl])
        qed
        with ne Some s show ?thesis by (simp add: unf)
      next
        case c
        have "ok_result t (case consume None t of
               Inl e \<Rightarrow> Inl e
             | Inr (opr, t1) \<Rightarrow>
                 (case expect_number (''Expected number after comparator '' @ quoted opr) t1 of
                    Inl e \<Rightarrow> Inl e
                  | Inr (v, t2) \<Rightarrow> Inr (mods\<lparr>comparator := Some (Condition opr v)\<rparr>, t2)))"
          by (rule ok_bind [OF consume_ok], rule ok_bind [OF expect_number_ok]) simp
        with ne Some c show ?thesis by (simp add: unf)
      next
        case other
        with ne Some show ?thesis by (simp add: unf)
      qed
    qed
  qed
qed

lemma parse_count_ok: "ok_result t (parse_count t)"
proof (cases "next_isdigit t")
  case True
  have "ok_result t (case consume None t of
           Inl e \<Rightarrow> Inl e
         | Inr (num, t') \<Rightarrow>
             (case int_token num of Inl e \<Rightarrow> Inl e | Inr v \<Rightarrow> Inr (nat v, t')))"
    by (rule ok_bind [OF consume_ok]) (rule ok_int_token, simp)
  with True show ?thesis by (simp add: parse_count_def)
next
  case False
  then show ?thesis by (simp add: parse_count_def)
qed

lemma parse_dice_ok: "ok_result t (parse_dice t)"
  unfolding parse_dice_def
proof (rule ok_bind [OF parse_count_ok], rule ok_bind [OF consume_ok])
  fix cnt t1 die_token t2
  assume "consume None t1 = Inr (die_token, t2)"
  then have "position t2 - 1 < length (tokens t2)"
    using consume_advances [of None t1 die_token t2] by simp
  then have err: "\<And>m. error_at t2 (ParseError m (pos_at t2 (position t2 - 1)) (ttext t2))"
    by (rule error_at_token)
  have mods: "\<And>sides die_type. ok_result t2 (case parse_dice_modifiers t2 of
                      Inl e \<Rightarrow> Inl e
                    | Inr (mods, t3) \<Rightarrow> Inr (Dice cnt sides die_type mods, t3))"
    unfolding parse_dice_modifiers_def by (rule ok_bind [OF modifiers_loop_ok]) simp
  show "ok_result t2
          (if \<not> startswith (lower die_token) ''d'' then
            Inl (ParseError (''Expected dice notation, got '' @ quoted die_token)
                   (pos_at t2 (position t2 - 1)) (ttext t2))
          else
            (case dice_sides (lower (tl die_token)) of
               None \<Rightarrow>
                 Inl (ParseError (''Invalid dice sides '' @ quoted (lower (tl die_token)))
                        (pos_at t2 (position t2 - 1)) (ttext t2))
             | Some (sides, die_type) \<Rightarrow>
                 if cnt > MAX_DICE
                   then Inl (LimitError ''Cannot roll more than 1000 dice per term'')
                 else if sides > MAX_SIDES
                   then Inl (LimitError ''Die cannot have more than 1000000000 sides'')
                 else if cnt < 1 then Inl (SemanticError ''Must roll at least 1 die'')
                 else if sides < 1 then Inl (SemanticError ''Die must have at least 1 side'')
                 else
                   (case parse_dice_modifiers t2 of
                      Inl e \<Rightarrow> Inl e
                    | Inr (mods, t3) \<Rightarrow> Inr (Dice cnt sides die_type mods, t3))))"
    using err mods by (simp split: option.splits prod.splits)
qed

lemma parse_primary_ok: "ok_result t (parse_primary t)"
proof (cases "peek 0 t")
  case None
  then show ?thesis by (simp add: parse_primary_def)
next
  case (Some tok)
  then have "position t < length (tokens t)" by (simp add: peek_def split: if_splits)
  then have err: "\<And>m. error_at t (ParseError m (pos_at t (position t)) (ttext t))"
    by (rule error_at_token)
  have num: "ok_result t (case consume None t of
               Inl e \<Rightarrow> Inl e
             | Inr (num, t') \<Rightarrow>
                 (case int_token num of Inl e \<Rightarrow> Inl e | Inr v \<Rightarrow> Inr (Number v, t')))"
    by (rule ok_bind [OF consume_ok]) (rule ok_int_token, simp)
  from Some err num parse_dice_ok [of t] show ?thesis
    by (simp add: parse_primary_def)
qed

section \<open>The parser returns\<close>

definition remaining :: "tokenizer \<Rightarrow> nat" where
  "remaining t = length (tokens t) - position t"

text \<open>
  \<open>good t res\<close>: a call from the tokenizer state \<open>t\<close> came back within its bound on
  nested calls, with a result that is further on in the same tokens, or with an error
  that is reported at one of them.
\<close>

definition good :: "tokenizer \<Rightarrow> (error + (ast \<times> dice_parser)) option \<Rightarrow> bool" where
  "good t res =
     (\<exists>x. res = Some x
        \<and> (case x of
              Inl e \<Rightarrow> error_at t e
            | Inr (a, p') \<Rightarrow> advanced t (tokenizer_of p')))"

lemma good_Inl [simp]: "good t (Some (Inl e)) = error_at t e"
  by (simp add: good_def)

lemma good_Inr [simp]: "good t (Some (Inr (a, p'))) = advanced t (tokenizer_of p')"
  by (simp add: good_def)

lemma good_None [simp]: "\<not> good t None"
  by (simp add: good_def)

lemma good_advanced:
  assumes "advanced t t1" and "good t1 res"
  shows "good t res"
proof -
  from assms(2) obtain x where x: "res = Some x" by (auto simp: good_def)
  show ?thesis
  proof (cases x)
    case (Inl e)
    with x assms show ?thesis by (auto intro: error_at_advanced)
  next
    case (Inr y)
    obtain a p' where "y = (a, p')" by (cases y)
    with Inr x assms show ?thesis by (auto intro: advanced_trans)
  qed
qed

lemma advanced_remaining: "advanced t t1 \<Longrightarrow> remaining t1 \<le> remaining t"
  unfolding advanced_def remaining_def by auto

lemma good_bind:
  assumes "good t m"
    and "\<And>a p1. m = Some (Inr (a, p1)) \<Longrightarrow> advanced t (tokenizer_of p1)
           \<Longrightarrow> good (tokenizer_of p1) (f a p1)"
  shows "good t (case m of
                   None \<Rightarrow> None
                 | Some (Inl e) \<Rightarrow> Some (Inl e)
                 | Some (Inr (a, p1)) \<Rightarrow> f a p1)"
proof -
  from assms(1) obtain x where m: "m = Some x" by (auto simp: good_def)
  show ?thesis
  proof (cases x)
    case (Inl e)
    with m assms(1) show ?thesis by simp
  next
    case (Inr y)
    obtain a p1 where y: "y = (a, p1)" by (cases y)
    with m Inr assms(1) have adv: "advanced t (tokenizer_of p1)" by simp
    from assms(2) [OF _ adv] m Inr y have "good (tokenizer_of p1) (f a p1)" by simp
    with adv have "good t (f a p1)" by (rule good_advanced)
    with m Inr y show ?thesis by simp
  qed
qed

lemma good_consume:
  assumes "\<And>x t1. consume expected t = Inr (x, t1) \<Longrightarrow> advanced t t1
             \<Longrightarrow> remaining t1 < remaining t \<Longrightarrow> good t1 (g x t1)"
  shows "good t (case consume expected t of
                   Inl e \<Rightarrow> Some (Inl e)
                 | Inr (x, t1) \<Rightarrow> g x t1)"
proof (cases "consume expected t")
  case (Inl e)
  then show ?thesis by (simp add: consume_Inl)
next
  case (Inr y)
  obtain x t1 where y: "y = (x, t1)" by (cases y)
  from consume_Inr [of expected t x t1] Inr y have
    adv: "advanced t t1" and r: "remaining t1 < remaining t"
    by (auto simp: remaining_def advanced_def)
  from assms [OF _ adv r] Inr y have "good t1 (g x t1)" by simp
  with adv have "good t (g x t1)" by (rule good_advanced)
  with Inr y show ?thesis by simp
qed

lemma loop_body_good:
  assumes sub: "\<And>q. remaining (tokenizer_of q) < remaining (tokenizer_of p)
                   \<Longrightarrow> good (tokenizer_of q) (sub q)"
    and lp: "\<And>l q. remaining (tokenizer_of q) < remaining (tokenizer_of p)
                   \<Longrightarrow> good (tokenizer_of q) (loop l q)"
  shows "good (tokenizer_of p)
           (case consume None (tokenizer_of p) of
              Inl e \<Rightarrow> Some (Inl e)
            | Inr (x, t1) \<Rightarrow>
                (case sub (p\<lparr>tokenizer_of := t1\<rparr>) of
                   None \<Rightarrow> None
                 | Some (Inl e) \<Rightarrow> Some (Inl e)
                 | Some (Inr (right, p2)) \<Rightarrow> loop (BinaryOp opr left right) p2))"
proof (rule good_consume)
  fix x t1
  assume r: "remaining t1 < remaining (tokenizer_of p)"
  show "good t1 (case sub (p\<lparr>tokenizer_of := t1\<rparr>) of
                   None \<Rightarrow> None
                 | Some (Inl e) \<Rightarrow> Some (Inl e)
                 | Some (Inr (right, p2)) \<Rightarrow> loop (BinaryOp opr left right) p2)"
  proof (rule good_bind)
    show "good t1 (sub (p\<lparr>tokenizer_of := t1\<rparr>))"
      using sub [of "p\<lparr>tokenizer_of := t1\<rparr>"] r by simp
  next
    fix a and p2 :: dice_parser
    assume "advanced t1 (tokenizer_of p2)"
    then have "remaining (tokenizer_of p2) \<le> remaining t1" by (rule advanced_remaining)
    with r have "remaining (tokenizer_of p2) < remaining (tokenizer_of p)" by simp
    then show "good (tokenizer_of p2) (loop (BinaryOp opr left a) p2)" by (rule lp)
  qed
qed

lemma parser_fuel:
  "(3 * remaining (tokenizer_of p) + 3 \<le> n \<longrightarrow> good (tokenizer_of p) (parse_expression n p))
   \<and> (3 * remaining (tokenizer_of p) + 2 \<le> n \<longrightarrow>
        good (tokenizer_of p) (expression_loop n left p))
   \<and> (3 * remaining (tokenizer_of p) + 2 \<le> n \<longrightarrow> good (tokenizer_of p) (parse_term n p))
   \<and> (3 * remaining (tokenizer_of p) + 1 \<le> n \<longrightarrow> good (tokenizer_of p) (term_loop n left p))
   \<and> (3 * remaining (tokenizer_of p) + 1 \<le> n \<longrightarrow> good (tokenizer_of p) (parse_factor n p))"
proof (induction n arbitrary: p left)
  case 0
  show ?case by simp
next
  case (Suc n)
  have iE: "\<And>q. 3 * remaining (tokenizer_of q) + 3 \<le> n
             \<Longrightarrow> good (tokenizer_of q) (parse_expression n q)"
    using Suc.IH by blast
  have iEL: "\<And>l q. 3 * remaining (tokenizer_of q) + 2 \<le> n
             \<Longrightarrow> good (tokenizer_of q) (expression_loop n l q)"
    using Suc.IH by blast
  have iT: "\<And>q. 3 * remaining (tokenizer_of q) + 2 \<le> n
             \<Longrightarrow> good (tokenizer_of q) (parse_term n q)"
    using Suc.IH by blast
  have iTL: "\<And>l q. 3 * remaining (tokenizer_of q) + 1 \<le> n
             \<Longrightarrow> good (tokenizer_of q) (term_loop n l q)"
    using Suc.IH by blast
  have iF: "\<And>q. 3 * remaining (tokenizer_of q) + 1 \<le> n
             \<Longrightarrow> good (tokenizer_of q) (parse_factor n q)"
    using Suc.IH by blast
  let ?t = "tokenizer_of p"
  let ?r = "remaining ?t"
  have E: "good ?t (parse_expression (Suc n) p)" if b: "3 * ?r + 3 \<le> Suc n"
  proof -
    have "good ?t (case parse_term n p of
                     None \<Rightarrow> None
                   | Some (Inl e) \<Rightarrow> Some (Inl e)
                   | Some (Inr (left, p1)) \<Rightarrow> expression_loop n left p1)"
    proof (rule good_bind)
      show "good ?t (parse_term n p)" using b by (intro iT) simp
    next
      fix a and p1 :: dice_parser
      assume "advanced ?t (tokenizer_of p1)"
      then have "remaining (tokenizer_of p1) \<le> ?r" by (rule advanced_remaining)
      with b show "good (tokenizer_of p1) (expression_loop n a p1)" by (intro iEL) simp
    qed
    then show ?thesis by simp
  qed
  have T: "good ?t (parse_term (Suc n) p)" if b: "3 * ?r + 2 \<le> Suc n"
  proof -
    have "good ?t (case parse_factor n p of
                     None \<Rightarrow> None
                   | Some (Inl e) \<Rightarrow> Some (Inl e)
                   | Some (Inr (left, p1)) \<Rightarrow> term_loop n left p1)"
    proof (rule good_bind)
      show "good ?t (parse_factor n p)" using b by (intro iF) simp
    next
      fix a and p1 :: dice_parser
      assume "advanced ?t (tokenizer_of p1)"
      then have "remaining (tokenizer_of p1) \<le> ?r" by (rule advanced_remaining)
      with b show "good (tokenizer_of p1) (term_loop n a p1)" by (intro iTL) simp
    qed
    then show ?thesis by simp
  qed
  have EL: "good ?t (expression_loop (Suc n) left p)" if b: "3 * ?r + 2 \<le> Suc n"
  proof -
    have body: "\<And>opr. good ?t
           (case consume None ?t of
              Inl e \<Rightarrow> Some (Inl e)
            | Inr (x, t1) \<Rightarrow>
                (case parse_term n (p\<lparr>tokenizer_of := t1\<rparr>) of
                   None \<Rightarrow> None
                 | Some (Inl e) \<Rightarrow> Some (Inl e)
                 | Some (Inr (right, p2)) \<Rightarrow> expression_loop n (BinaryOp opr left right) p2))"
    proof (rule loop_body_good)
      fix q :: dice_parser assume "remaining (tokenizer_of q) < ?r"
      with b show "good (tokenizer_of q) (parse_term n q)" by (intro iT) simp
    next
      fix l and q :: dice_parser assume "remaining (tokenizer_of q) < ?r"
      with b show "good (tokenizer_of q) (expression_loop n l q)" by (intro iEL) simp
    qed
    show ?thesis
    proof (cases "at_end ?t")
      case True
      then show ?thesis by simp
    next
      case False
      then show ?thesis using body by (simp split: option.splits)
    qed
  qed
  have TL: "good ?t (term_loop (Suc n) left p)" if b: "3 * ?r + 1 \<le> Suc n"
  proof -
    have body: "\<And>opr. good ?t
           (case consume None ?t of
              Inl e \<Rightarrow> Some (Inl e)
            | Inr (x, t1) \<Rightarrow>
                (case parse_factor n (p\<lparr>tokenizer_of := t1\<rparr>) of
                   None \<Rightarrow> None
                 | Some (Inl e) \<Rightarrow> Some (Inl e)
                 | Some (Inr (right, p2)) \<Rightarrow> term_loop n (BinaryOp opr left right) p2))"
    proof (rule loop_body_good)
      fix q :: dice_parser assume "remaining (tokenizer_of q) < ?r"
      with b show "good (tokenizer_of q) (parse_factor n q)" by (intro iF) simp
    next
      fix l and q :: dice_parser assume "remaining (tokenizer_of q) < ?r"
      with b show "good (tokenizer_of q) (term_loop n l q)" by (intro iTL) simp
    qed
    show ?thesis
    proof (cases "at_end ?t")
      case True
      then show ?thesis by simp
    next
      case False
      then show ?thesis using body by (simp split: option.splits)
    qed
  qed
  have F: "good ?t (parse_factor (Suc n) p)" if b: "3 * ?r + 1 \<le> Suc n"
  proof -
    have minus: "good ?t
        (case consume None ?t of
           Inl e \<Rightarrow> Some (Inl e)
         | Inr (x, t1) \<Rightarrow>
             (case parse_factor n (p\<lparr>tokenizer_of := t1\<rparr>) of
                None \<Rightarrow> None
              | Some (Inl e) \<Rightarrow> Some (Inl e)
              | Some (Inr (operand, p2)) \<Rightarrow> Some (Inr (UnaryOp ''-'' operand, p2))))"
    proof (rule good_consume)
      fix x t1
      assume r: "remaining t1 < ?r"
      show "good t1 (case parse_factor n (p\<lparr>tokenizer_of := t1\<rparr>) of
                None \<Rightarrow> None
              | Some (Inl e) \<Rightarrow> Some (Inl e)
              | Some (Inr (operand, p2)) \<Rightarrow> Some (Inr (UnaryOp ''-'' operand, p2)))"
      proof (rule good_bind)
        show "good t1 (parse_factor n (p\<lparr>tokenizer_of := t1\<rparr>))"
          using iF [of "p\<lparr>tokenizer_of := t1\<rparr>"] r b by simp
      next
        fix a and p2 :: dice_parser
        show "good (tokenizer_of p2) (Some (Inr (UnaryOp ''-'' a, p2)))" by simp
      qed
    qed
    have paren: "good ?t
        (case consume (Some ''('') ?t of
              Inl e \<Rightarrow> Some (Inl e)
            | Inr (x, t1) \<Rightarrow>
                (case parse_expression n
                        (p\<lparr>tokenizer_of := t1, recursion_depth := recursion_depth p + 1\<rparr>) of
                   None \<Rightarrow> None
                 | Some (Inl e) \<Rightarrow> Some (Inl e)
                 | Some (Inr (expr, p2)) \<Rightarrow>
                     (case consume (Some '')'') (tokenizer_of p2) of
                        Inl e \<Rightarrow> Some (Inl e)
                      | Inr (y, t3) \<Rightarrow>
                          Some (Inr (expr,
                                     p2\<lparr>tokenizer_of := t3,
                                        recursion_depth := recursion_depth p2 - 1\<rparr>)))))"
    proof (rule good_consume)
      fix x t1
      assume r: "remaining t1 < ?r"
      let ?q = "p\<lparr>tokenizer_of := t1, recursion_depth := recursion_depth p + 1\<rparr>"
      show "good t1 (case parse_expression n ?q of
                   None \<Rightarrow> None
                 | Some (Inl e) \<Rightarrow> Some (Inl e)
                 | Some (Inr (expr, p2)) \<Rightarrow>
                     (case consume (Some '')'') (tokenizer_of p2) of
                        Inl e \<Rightarrow> Some (Inl e)
                      | Inr (y, t3) \<Rightarrow>
                          Some (Inr (expr,
                                     p2\<lparr>tokenizer_of := t3,
                                        recursion_depth := recursion_depth p2 - 1\<rparr>))))"
      proof (rule good_bind)
        show "good t1 (parse_expression n ?q)"
          using iE [of ?q] r b by simp
      next
        fix a and p2 :: dice_parser
        show "good (tokenizer_of p2)
                (case consume (Some '')'') (tokenizer_of p2) of
                        Inl e \<Rightarrow> Some (Inl e)
                      | Inr (y, t3) \<Rightarrow>
                          Some (Inr (a,
                                     p2\<lparr>tokenizer_of := t3,
                                        recursion_depth := recursion_depth p2 - 1\<rparr>)))"
          by (rule good_consume) simp
      qed
    qed
    have prim: "good ?t
        (case parse_primary ?t of
           Inl e \<Rightarrow> Some (Inl e)
         | Inr (node, t1) \<Rightarrow> Some (Inr (node, p\<lparr>tokenizer_of := t1\<rparr>)))"
      using parse_primary_ok [of ?t] by (auto split: sum.splits)
    from minus paren prim show ?thesis by simp
  qed
  from E EL T TL F show ?case by blast
qed

section \<open>Tokens lie in the text\<close>



section \<open>\<^verbatim>\<open>parse\<close> returns\<close>

lemma parse_expression_good:
  "good (tokenizer_of p) (parse_expression (parse_fuel p) p)"
proof -
  have "3 * remaining (tokenizer_of p) + 3 \<le> parse_fuel p"
    by (simp add: parse_fuel_def remaining_def)
  with parser_fuel [of p "parse_fuel p"] show ?thesis by blast
qed

text \<open>
  \<^verbatim>\<open>parse\<close> comes back for every text. A \<open>ParseError\<close> of its carries the stripped
  text and a position in it: 0 for the empty expression, the length of the stripped text
  at the end of the input, or the offset of a token.
\<close>

lemma parse_returns:
  "\<exists>x. parse txt = Some x
     \<and> (\<forall>e. x = Inl e \<longrightarrow> error_at (Tokenizer txt) e
              \<or> e = ParseError ''Empty expression'' 0 (strip txt))"
proof (cases "at_end (Tokenizer txt)")
  case True
  then show ?thesis by (simp add: parse_def DiceParser_def Let_def Tokenizer_def)
next
  case False
  let ?p = "DiceParser txt"
  have t: "tokenizer_of ?p = Tokenizer txt" by (simp add: DiceParser_def)
  from parse_expression_good [of ?p] obtain x where
    x: "parse_expression (parse_fuel ?p) ?p = Some x" by (auto simp: good_def)
  show ?thesis
  proof (cases x)
    case (Inl e)
    with x parse_expression_good [of ?p] have "error_at (Tokenizer txt) e" by (simp add: t)
    with False x Inl show ?thesis by (simp add: parse_def Let_def t)
  next
    case (Inr y)
    obtain a p1 where y: "y = (a, p1)" by (cases y)
    with x Inr parse_expression_good [of ?p] have
      adv: "advanced (Tokenizer txt) (tokenizer_of p1)" by (simp add: t)
    show ?thesis
    proof (cases "peek 0 (tokenizer_of p1)")
      case None
      with False x Inr y show ?thesis by (simp add: parse_def Let_def t)
    next
      case (Some tok)
      then have "position (tokenizer_of p1) < length (tokens (tokenizer_of p1))"
        by (simp add: peek_def split: if_splits)
      then have "error_at (tokenizer_of p1)
          (ParseError (''Unexpected token '' @ quoted tok @ '' after expression'')
             (pos_at (tokenizer_of p1) (position (tokenizer_of p1)))
             (ttext (tokenizer_of p1)))"
        by (rule error_at_token)
      with adv have "error_at (Tokenizer txt)
          (ParseError (''Unexpected token '' @ quoted tok @ '' after expression'')
             (pos_at (tokenizer_of p1) (position (tokenizer_of p1)))
             (ttext (tokenizer_of p1)))"
        by (rule error_at_advanced)
      with False x Inr y Some show ?thesis by (simp add: parse_def Let_def t)
    qed
  qed
qed


section \<open>Errors of the evaluation\<close>

definition is_parse_error :: "error \<Rightarrow> bool" where
  "is_parse_error e = (case e of ParseError msg pos inp \<Rightarrow> True | _ \<Rightarrow> False)"

lemma is_parse_error_simps [simp]:
  "is_parse_error (ParseError msg pos inp)"
  "\<not> is_parse_error (SemanticError m)"
  "\<not> is_parse_error (LimitError m)"
  "\<not> is_parse_error (DiceError m)"
  "\<not> is_parse_error (OtherError c m)"
  by (simp_all add: is_parse_error_def)




















section \<open>What a failure of \<^verbatim>\<open>roll_dice\<close> carries\<close>

lemma roll_dice_returns: "\<exists>res. roll_dice ops txt r = Some res"
proof -
  from parse_returns [of "txt"] obtain x where "parse txt = Some x" by blast
  then show ?thesis
    by (cases x) (auto simp: roll_dice_def split: sum.splits prod.splits)
qed







section \<open>Division by zero\<close>

text \<open>
  The evaluation of a node from given traces and entropy reaches a division whose right
  operand is zero: in the order of \<^verbatim>\<open>_eval_node\<close>, the left operand does, or it evaluates
  and the right operand does, or both evaluate, the operator is \<^verbatim>\<open>/\<close> and the right value
  is zero.
\<close>

fun reaches_zero_division :: "'f float_ops \<Rightarrow> ast \<Rightarrow> dice_trace list \<Rightarrow> rng \<Rightarrow> bool" where
  "reaches_zero_division ops (Number n) traces r = False"
| "reaches_zero_division ops (BinaryOp opr left right) traces r =
     (reaches_zero_division ops left traces r
      \<or> (case eval_node ops left traces r of
            Inl e \<Rightarrow> False
          | Inr (left_val, traces1, r1) \<Rightarrow>
              reaches_zero_division ops right traces1 r1
              \<or> (case eval_node ops right traces1 r1 of
                    Inl e \<Rightarrow> False
                  | Inr (right_val, traces2, r2) \<Rightarrow> opr = ''/'' \<and> is_zero ops right_val)))"
| "reaches_zero_division ops (UnaryOp opr operand) traces r =
     reaches_zero_division ops operand traces r"
| "reaches_zero_division ops (Dice cnt sides die_type mods) traces r = False"

lemma binary_op_zero:
  "is_zero ops right_val \<Longrightarrow>
     binary_op ops ''/'' left_val right_val = Inl (DiceError ''Division by zero'')"
  by (simp add: binary_op_def)

lemma eval_node_zero_division:
  "reaches_zero_division ops node traces r \<Longrightarrow>
     eval_node ops node traces r = Inl (DiceError ''Division by zero'')"
proof (induction node arbitrary: traces r)
  case (Number n)
  then show ?case by simp
next
  case (BinaryOp opr left right)
  show ?case
  proof (cases "reaches_zero_division ops left traces r")
    case True
    from BinaryOp.IH(1) [OF True] show ?thesis by simp
  next
    case False
    show ?thesis
    proof (cases "eval_node ops left traces r")
      case (Inl e)
      with False BinaryOp.prems show ?thesis by simp
    next
      case l: (Inr pl)
      obtain lv t1 r1 where pl: "pl = (lv, t1, r1)" by (cases pl)
      show ?thesis
      proof (cases "reaches_zero_division ops right t1 r1")
        case True
        from BinaryOp.IH(2) [OF True] l pl show ?thesis by simp
      next
        case nr: False
        show ?thesis
        proof (cases "eval_node ops right t1 r1")
          case (Inl e)
          with False nr l pl BinaryOp.prems show ?thesis by simp
        next
          case rr: (Inr pr)
          obtain rv t2 r2 where pr: "pr = (rv, t2, r2)" by (cases pr)
          from False nr l pl rr pr BinaryOp.prems have "opr = ''/''" "is_zero ops rv"
            by simp_all
          with binary_op_zero [of ops rv lv] l pl rr pr show ?thesis by simp
        qed
      qed
    qed
  qed
next
  case (UnaryOp opr operand)
  then have "reaches_zero_division ops operand traces r" by simp
  from UnaryOp.IH [OF this] show ?case by simp
next
  case (Dice cnt sides die_type mods)
  then show ?case by simp
qed

text \<open>
  Claim C4, as the code has it. When the evaluation of the parsed expression reaches a
  division whose right operand is zero, \<^verbatim>\<open>_eval_node\<close> raises
  \<^verbatim>\<open>DiceError("Division by zero")\<close>, and \<^verbatim>\<open>roll_dice\<close> returns the failure whose type
  is the name of that class, \<^verbatim>\<open>DiceError\<close>, with that message, no position and the
  original text.
\<close>

theorem division_by_zero_is_dice_error:
  fixes ops :: "'f float_ops"
  assumes "parse txt = Some (Inr node)"
    and "reaches_zero_division ops node [] r"
  shows "evaluate ops node r = Inl (DiceError ''Division by zero'')
       \<and> roll_dice ops txt r
           = Some (Failure ''DiceError'' ''Division by zero'' None txt)"
proof -
  from eval_node_zero_division [OF assms(2)] have
    e: "evaluate ops node r = Inl (DiceError ''Division by zero'')"
    by (simp add: evaluate_def)
  with assms(1) show ?thesis by (simp add: roll_dice_def failure_def)
qed

theorem division_by_zero_is_dice_error_witness:
  "parse ''2*(1d1/(1-1))''
     = Some (Inr (BinaryOp ''*'' (Number 2)
                    (BinaryOp ''/'' (Dice 1 1 ''d'' no_modifiers)
                       (BinaryOp ''-'' (Number 1) (Number 1)))))
   \<and> (\<forall>ops r. reaches_zero_division (ops :: unit float_ops)
         (BinaryOp ''*'' (Number 2)
            (BinaryOp ''/'' (Dice 1 1 ''d'' no_modifiers)
               (BinaryOp ''-'' (Number 1) (Number 1)))) [] r)
   \<and> (\<forall>ops r. roll_dice (ops :: unit float_ops) ''2*(1d1/(1-1))'' r
         = Some (Failure ''DiceError'' ''Division by zero'' None ''2*(1d1/(1-1))''))"
proof -
  let ?node = "BinaryOp ''*'' (Number 2)
                    (BinaryOp ''/'' (Dice 1 1 ''d'' no_modifiers)
                       (BinaryOp ''-'' (Number 1) (Number 1)))"
  have p: "parse ''2*(1d1/(1-1))'' = Some (Inr ?node)"
    by code_simp
  have d: "eval_dice (Suc 0) 1 ''d'' no_modifiers r
             = Inr (1, snd (dice_result (Suc 0) 1 ''d'' no_modifiers [DieRoll 1] None), r)" for r
    by (simp add: eval_dice_def roll_value_def roll_die_def MAX_SIDES_def reroll_stage_def
          explode_stage_def keep_stage_def no_modifiers_def dice_result_def Let_def
          DieRoll_def)
  have z: "reaches_zero_division ops ?node [] r" for ops :: "unit float_ops" and r
    by (simp add: d binary_op_def arith_def is_zero_def)
  from division_by_zero_is_dice_error [OF p z] p z show ?thesis by simp
qed

text \<open>
  The input \<^verbatim>\<open>1/0\<close> fails with the type \<^verbatim>\<open>DiceError\<close>, which is not
  \<^verbatim>\<open>RuntimeError\<close> and not one of the four names of the taxonomy.
\<close>

theorem division_by_zero_type_is_not_runtime_error:
  "(\<forall>ops r. roll_dice (ops :: unit float_ops) ''1/0'' r
       = Some (Failure ''DiceError'' ''Division by zero'' None ''1/0''))
   \<and> ''DiceError'' \<noteq> ''RuntimeError''
   \<and> ''DiceError'' \<notin> {''ParseError'', ''SemanticError'', ''LimitError'', ''RuntimeError''}"
proof -
  have p: "parse ''1/0'' = Some (Inr (BinaryOp ''/'' (Number 1) (Number 0)))"
    by code_simp
  show ?thesis
    by (simp add: roll_dice_def p evaluate_def binary_op_def is_zero_def failure_def)
qed

end
